theory Spec2Isabelle
  imports Main
begin

section \<open>Data model\<close>

text \<open>
  The structs of the program. The \<open>sync.Mutex\<close> fields carry no data: a critical section
  is modelled as one atomic state transformer, and the interleaving of the tasks that run
  outside the caller's locks is made explicit by a schedule (see \<open>poll_loop\<close>).

  A \<open>*File\<close> is an address into the store of allocated \<open>File\<close> objects, or \<open>None\<close> for
  \<open>nil\<close>. Go's \<open>int\<close> is modelled as \<open>int\<close>: the only arithmetic is \<open>len(s) + 1\<close> on a slice
  length, which cannot overflow a 64-bit integer.
\<close>

record File =
  Name :: string
  IsOpen :: bool
  Content :: string

type_synonym file_ptr = "nat option"

record Request =
  ClientID :: int
  File :: file_ptr
  Timestamp :: int

text \<open>
  \<open>Store\<close> is the heap of \<open>File\<close> objects (address = index, allocation appends),
  \<open>Goroutines\<close> the \<open>go fs.SendRequest(clientID, request)\<close> tasks that were started and
  have not run yet, \<open>Stdout\<close> the lines printed so far and \<open>LogFile\<close> the lines handed to
  \<open>LogFile.WriteString\<close>, both without the terminating newline.
\<close>

record DistributedFileSystem =
  Files :: "string \<rightharpoonup> file_ptr"
  Requests :: "Request list"
  Acknowledged :: "bool list"
  Timestamps :: "int list"
  LogFile :: "string list"
  DeferredArray :: "string list"
  Store :: "File list"
  Goroutines :: "(int \<times> Request) list"
  Stdout :: "string list"

datatype panic = NilDereference | IndexOutOfRange | MakeSliceLenOutOfRange

type_synonym sched = "nat list list"

section \<open>Formatting\<close>

text \<open>The verb \<open>%d\<close> of \<open>fmt\<close>: decimal digits, with a leading minus sign.\<close>

fun digits :: "nat \<Rightarrow> string" where
  "digits n = (if n < 10 then [''0123456789'' ! n]
               else digits (n div 10) @ [''0123456789'' ! (n mod 10)])"

declare digits.simps [simp del]

definition itoa :: "int \<Rightarrow> string" where
  "itoa i = (if i < 0 then CHR ''-'' # digits (nat (- i)) else digits (nat i))"

section \<open>Operations\<close>

definition deref :: "File list \<Rightarrow> file_ptr \<Rightarrow> File option" where
  "deref st p = (case p of None \<Rightarrow> None
                 | Some a \<Rightarrow> if a < length st then Some (st ! a) else None)"

definition println :: "string \<Rightarrow> DistributedFileSystem \<Rightarrow> DistributedFileSystem" where
  "println l fs = fs\<lparr>Stdout := Stdout fs @ [l]\<rparr>"

text \<open>
  \<open>OpenFile\<close>. The last argument is what \<open>ioutil.ReadFile(fileName)\<close> returns when it is
  called: \<open>Inl\<close> the error text, \<open>Inr\<close> the bytes of the file.
\<close>

definition OpenFile ::
  "DistributedFileSystem \<Rightarrow> int \<Rightarrow> string \<Rightarrow> string + string
    \<Rightarrow> panic + (file_ptr \<times> DistributedFileSystem)" where
  "OpenFile fs clientID fileName load =
     (case Files fs fileName of
        None \<Rightarrow>
          (case load of
             Inl err \<Rightarrow>
               Inr (None, println (''Error opening file '' @ fileName @ '': '' @ err) fs)
           | Inr fileContent \<Rightarrow>
               (let file = Some (length (Store fs));
                    fs1 = fs\<lparr>Store := Store fs @
                            [\<lparr>Name = fileName, IsOpen = True, Content = fileContent\<rparr>]\<rparr>;
                    fs2 = fs1\<lparr>Files := (Files fs1)(fileName \<mapsto> file)\<rparr>
                in Inr (file, println (''Client '' @ itoa clientID @ '' opened file '' @ fileName) fs2)))
      | Some file \<Rightarrow>
          (case deref (Store fs) file of
             None \<Rightarrow> Inl NilDereference
           | Some f \<Rightarrow>
               (let fs1 = fs\<lparr>Store := (Store fs)[the file := f\<lparr>IsOpen := True\<rparr>]\<rparr>
                in Inr (file, println (''Client '' @ itoa clientID @ '' opened file '' @ fileName) fs1))))"

definition CloseFile :: "DistributedFileSystem \<Rightarrow> file_ptr \<Rightarrow> panic + DistributedFileSystem" where
  "CloseFile fs file =
     (case deref (Store fs) file of
        None \<Rightarrow> Inl NilDereference
      | Some f \<Rightarrow>
          (let fs1 = fs\<lparr>Store := (Store fs)[the file := f\<lparr>IsOpen := False\<rparr>]\<rparr>
           in Inr (println (''File '' @ Name f @ '' closed'') fs1)))"

text \<open>
  \<open>SendRequest\<close>. The guard compares against the length only; a negative index passes it
  and the slice access panics.
\<close>

definition SendRequest ::
  "DistributedFileSystem \<Rightarrow> int \<Rightarrow> Request \<Rightarrow> panic + DistributedFileSystem" where
  "SendRequest fs clientID request =
     (let fs1 = println (''Client '' @ itoa clientID @ '' sent request to client '' @
                          itoa (ClientID request)) fs
      in if ClientID request < int (length (Acknowledged fs1)) then
           (if ClientID request < 0 then Inl IndexOutOfRange
            else Inr (fs1\<lparr>Acknowledged := (Acknowledged fs1)[nat (ClientID request) := True]\<rparr>))
         else Inr (println ''Invalid client ID in SendRequest......'' fs1))"

text \<open>The variant of \<open>cls.go\<close>, which indexes the slice without any guard.\<close>

definition SendRequest_cls ::
  "DistributedFileSystem \<Rightarrow> int \<Rightarrow> Request \<Rightarrow> panic + DistributedFileSystem" where
  "SendRequest_cls fs clientID request =
     (let fs1 = println (''Client '' @ itoa clientID @ '' sent request to client '' @
                          itoa (ClientID request)) fs
      in if 0 \<le> ClientID request \<and> ClientID request < int (length (Acknowledged fs1)) then
           Inr (fs1\<lparr>Acknowledged := (Acknowledged fs1)[nat (ClientID request) := True]\<rparr>)
         else Inl IndexOutOfRange)"

text \<open>
  The scan of \<open>ReceiveAcknowledge\<close>: \<open>for i := 0; i < len(fs.Acknowledged); i++\<close> with its
  early \<open>return\<close>. The result is \<open>False\<close> when the loop returned early, \<open>True\<close> when it ran
  to its end.
\<close>

function ack_scan :: "bool list \<Rightarrow> nat \<Rightarrow> bool" where
  "ack_scan acks i =
     (if i < length acks then (if \<not> acks ! i then False else ack_scan acks (Suc i)) else True)"
  by pat_completeness auto
termination
  by (relation "measure (\<lambda>(acks, i). length acks - i)") auto

declare ack_scan.simps [simp del]

definition ReceiveAcknowledge :: "DistributedFileSystem \<Rightarrow> DistributedFileSystem" where
  "ReceiveAcknowledge fs =
     (if ack_scan (Acknowledged fs) 0 then
        println ''All acknowledgments received''
          (fs\<lparr>Acknowledged := replicate (length (Requests fs)) False\<rparr>)
      else fs)"

definition LogRequest ::
  "DistributedFileSystem \<Rightarrow> int \<Rightarrow> string \<Rightarrow> string \<Rightarrow> int \<Rightarrow> DistributedFileSystem" where
  "LogRequest fs clientID action fileName timestamp =
     fs\<lparr>LogFile := LogFile fs @
        [''Client '' @ itoa clientID @ '' '' @ action @ '' file '' @ fileName @
         '' at timestamp '' @ itoa timestamp]\<rparr>"

definition AddDeferredOperation :: "DistributedFileSystem \<Rightarrow> string \<Rightarrow> DistributedFileSystem" where
  "AddDeferredOperation fs operation = fs\<lparr>DeferredArray := DeferredArray fs @ [operation]\<rparr>"

subsection \<open>The notify tasks and their scheduling\<close>

text \<open>
  \<open>run_goroutine k\<close> lets the \<open>k\<close>-th pending \<open>SendRequest\<close> task run to its end (an index
  that names no pending task runs nothing); a panic in a task ends the process.
\<close>

definition run_goroutine :: "nat \<Rightarrow> DistributedFileSystem \<Rightarrow> panic + DistributedFileSystem" where
  "run_goroutine k fs =
     (if k < length (Goroutines fs) then
        (case Goroutines fs ! k of (clientID, request) \<Rightarrow>
           SendRequest (fs\<lparr>Goroutines := take k (Goroutines fs) @ drop (Suc k) (Goroutines fs)\<rparr>)
             clientID request)
      else Inr fs)"

fun run_goroutines :: "nat list \<Rightarrow> DistributedFileSystem \<Rightarrow> panic + DistributedFileSystem" where
  "run_goroutines [] fs = Inr fs"
| "run_goroutines (k # ks) fs =
     (case run_goroutine k fs of Inl p \<Rightarrow> Inl p | Inr fs1 \<Rightarrow> run_goroutines ks fs1)"

text \<open>The first loop of \<open>ReadFile\<close> and \<open>WriteFile\<close>: one \<open>go fs.SendRequest\<close> per differing request.\<close>

fun spawn_loop :: "Request list \<Rightarrow> int \<Rightarrow> DistributedFileSystem \<Rightarrow> DistributedFileSystem" where
  "spawn_loop [] clientID fs = fs"
| "spawn_loop (r # rs) clientID fs =
     (if ClientID r \<noteq> clientID
      then spawn_loop rs clientID (fs\<lparr>Goroutines := Goroutines fs @ [(clientID, r)]\<rparr>)
      else spawn_loop rs clientID fs)"

text \<open>
  The second loop. The tasks started by the first loop run concurrently with it; the
  schedule gives, for each call of \<open>ReceiveAcknowledge\<close> in turn, the pending tasks that
  run just before it (none once the schedule is used up). A task writes the acknowledgment
  array and prints, and only \<open>ReceiveAcknowledge\<close> reads the array, so a task that runs at
  another moment of the call has the effect of one that runs before the next poll, or after
  the call when no poll is left, up to the order of the printed lines.
\<close>

fun poll_loop ::
  "Request list \<Rightarrow> int \<Rightarrow> sched \<Rightarrow> DistributedFileSystem \<Rightarrow> panic + DistributedFileSystem" where
  "poll_loop [] clientID sch fs = Inr fs"
| "poll_loop (r # rs) clientID sch fs =
     (if ClientID r \<noteq> clientID then
        (case run_goroutines (case sch of [] \<Rightarrow> [] | ks # _ \<Rightarrow> ks) fs of
           Inl p \<Rightarrow> Inl p
         | Inr fs1 \<Rightarrow> poll_loop rs clientID (tl sch) (ReceiveAcknowledge fs1))
      else poll_loop rs clientID sch fs)"

subsection \<open>Read and Write\<close>

definition ReadFile ::
  "DistributedFileSystem \<Rightarrow> int \<Rightarrow> file_ptr \<Rightarrow> sched \<Rightarrow> panic + DistributedFileSystem" where
  "ReadFile fs clientID file sch =
     (let timestamp = int (length (Timestamps fs)) + 1;
          fs1 = fs\<lparr>Timestamps := Timestamps fs @ [timestamp]\<rparr>;
          request = \<lparr>ClientID = clientID, File = file, Timestamp = timestamp\<rparr>;
          fs2 = fs1\<lparr>Requests := Requests fs1 @ [request]\<rparr>;
          fs3 = spawn_loop (Requests fs2) clientID fs2
      in case poll_loop (Requests fs3) clientID sch fs3 of
           Inl p \<Rightarrow> Inl p
         | Inr fs4 \<Rightarrow>
             (case deref (Store fs4) file of
                None \<Rightarrow> Inl NilDereference
              | Some f \<Rightarrow>
                  (let fs5 = println (''Client '' @ itoa clientID @ '' read file '' @ Name f @
                                       '': '' @ Content f) fs4;
                       fs6 = LogRequest fs5 clientID ''Read'' (Name f) timestamp
                   in Inr (AddDeferredOperation fs6 (''Read by Client '' @ itoa clientID)))))"

text \<open>
  \<open>WriteFile\<close>. The last argument is the error of \<open>ioutil.WriteFile\<close>, \<open>None\<close> for \<open>nil\<close>.
\<close>

definition WriteFile ::
  "DistributedFileSystem \<Rightarrow> int \<Rightarrow> file_ptr \<Rightarrow> string \<Rightarrow> sched \<Rightarrow> string option
    \<Rightarrow> panic + DistributedFileSystem" where
  "WriteFile fs clientID file content sch save =
     (let timestamp = int (length (Timestamps fs)) + 1;
          fs1 = fs\<lparr>Timestamps := Timestamps fs @ [timestamp]\<rparr>;
          request = \<lparr>ClientID = clientID, File = file, Timestamp = timestamp\<rparr>;
          fs2 = fs1\<lparr>Requests := Requests fs1 @ [request]\<rparr>;
          fs3 = spawn_loop (Requests fs2) clientID fs2
      in case poll_loop (Requests fs3) clientID sch fs3 of
           Inl p \<Rightarrow> Inl p
         | Inr fs4 \<Rightarrow>
             (case deref (Store fs4) file of
                None \<Rightarrow> Inl NilDereference
              | Some f \<Rightarrow>
                  (let fs5 = fs4\<lparr>Store := (Store fs4)[the file := f\<lparr>Content := content\<rparr>]\<rparr>
                   in case save of
                        Some err \<Rightarrow>
                          Inr (println (''Error writing to file '' @ Name f @ '': '' @ err) fs5)
                      | None \<Rightarrow>
                          (let fs6 = println (''Client '' @ itoa clientID @ '' wrote to file '' @
                                               Name f @ '': '' @ content) fs5;
                               fs7 = LogRequest fs6 clientID ''Write'' (Name f) timestamp
                           in Inr (AddDeferredOperation fs7 (''Write by Client '' @ itoa clientID))))))"

section \<open>Sequences of calls\<close>

text \<open>
  The calls a client task can make, with what the environment answers, and \<open>Notify k\<close>
  for the scheduler letting a pending notify task run. \<open>ReadFile\<close> and \<open>WriteFile\<close>
  hold \<open>RequestMutex\<close> from their first to their last statement, so the calls of a run
  are taken in the order in which they were admitted; a panic ends the run.
\<close>

datatype call =
    Open int string "string + string"
  | Close file_ptr
  | Read int file_ptr sched
  | Write int file_ptr string sched "string option"
  | Notify nat

fun exec :: "call \<Rightarrow> DistributedFileSystem \<Rightarrow> panic + DistributedFileSystem" where
  "exec (Open clientID fileName load) fs =
     (case OpenFile fs clientID fileName load of Inl p \<Rightarrow> Inl p | Inr (file, fs1) \<Rightarrow> Inr fs1)"
| "exec (Close file) fs = CloseFile fs file"
| "exec (Read clientID file sch) fs = ReadFile fs clientID file sch"
| "exec (Write clientID file content sch save) fs = WriteFile fs clientID file content sch save"
| "exec (Notify k) fs = run_goroutine k fs"

fun run :: "call list \<Rightarrow> DistributedFileSystem \<Rightarrow> panic + DistributedFileSystem" where
  "run [] fs = Inr fs"
| "run (c # cs) fs = (case exec c fs of Inl p \<Rightarrow> Inl p | Inr fs1 \<Rightarrow> run cs fs1)"

text \<open>
  \<open>last_written a cs\<close> is the content argument of the last \<open>Write\<close> on the handle at
  address \<open>a\<close> among the calls \<open>cs\<close>; \<open>is_access\<close> marks the calls that allocate a
  timestamp, \<open>completes\<close> the reads and the writes whose save succeeded.
\<close>

fun written :: "nat \<Rightarrow> call \<Rightarrow> string option" where
  "written a (Write clientID file content sch save) = (if file = Some a then Some content else None)"
| "written a c = None"

fun last_written :: "nat \<Rightarrow> call list \<Rightarrow> string option" where
  "last_written a [] = None"
| "last_written a (c # cs) =
     (case last_written a cs of Some content \<Rightarrow> Some content | None \<Rightarrow> written a c)"

fun is_access :: "call \<Rightarrow> bool" where
  "is_access (Read clientID file sch) = True"
| "is_access (Write clientID file content sch save) = True"
| "is_access c = False"

fun completes :: "call \<Rightarrow> bool" where
  "completes (Read clientID file sch) = True"
| "completes (Write clientID file content sch save) = (save = None)"
| "completes c = False"

section \<open>The program\<close>

text \<open>
  \<open>main\<close> sizes the acknowledgment array by the number it reads (\<open>make\<close> panics on a
  negative length) and starts one task per client; the task of index \<open>i\<close> has the id
  \<open>i + 1\<close> and calls \<open>OpenFile\<close> and, when the handle is not \<open>nil\<close>, \<open>WriteFile\<close>,
  \<open>ReadFile\<close> and \<open>CloseFile\<close>. A \<open>client_pc\<close> is the place of a task in that body.
  An event lets one client task make its next call (\<open>Advance\<close>, with the answers of the
  environment and the schedule of that call) or one pending notify task run (\<open>Deliver\<close>).
  The log file, the timing report and the final listing of \<open>DeferredArray\<close> are left out.
\<close>

record Client =
  ID :: int
  FileName :: string

datatype client_pc = AtOpen | AtWrite file_ptr | AtRead file_ptr | AtClose file_ptr | Finished

record Program =
  fileSystem :: DistributedFileSystem
  clients :: "client_pc list"

datatype event = Advance nat "string + string" sched "string option" | Deliver nat

definition main_start :: "int \<Rightarrow> panic + Program" where
  "main_start numClients =
     (if numClients < 0 then Inl MakeSliceLenOutOfRange
      else Inr \<lparr>fileSystem =
                  \<lparr>Files = Map.empty, Requests = [],
                   Acknowledged = replicate (nat numClients) False,
                   Timestamps = [], LogFile = [], DeferredArray = [], Store = [],
                   Goroutines = [], Stdout = [''Enter the number of clients: '']\<rparr>,
                clients = replicate (nat numClients) AtOpen\<rparr>)"

definition client_step ::
  "nat \<Rightarrow> string + string \<Rightarrow> sched \<Rightarrow> string option \<Rightarrow> Program \<Rightarrow> panic + Program" where
  "client_step i load sch save P =
     (if i < length (clients P) then
        (let client = \<lparr>ID = int i + 1, FileName = ''file1.txt''\<rparr> in
         case clients P ! i of
           AtOpen \<Rightarrow>
             (case OpenFile (fileSystem P) (ID client) (FileName client) load of
                Inl p \<Rightarrow> Inl p
              | Inr (file, fs') \<Rightarrow>
                  Inr \<lparr>fileSystem = fs',
                       clients = (clients P)[i := (if file \<noteq> None then AtWrite file else Finished)]\<rparr>)
         | AtWrite file \<Rightarrow>
             (case WriteFile (fileSystem P) (ID client) file
                     (''Content written by Client '' @ itoa (ID client)) sch save of
                Inl p \<Rightarrow> Inl p
              | Inr fs' \<Rightarrow> Inr \<lparr>fileSystem = fs', clients = (clients P)[i := AtRead file]\<rparr>)
         | AtRead file \<Rightarrow>
             (case ReadFile (fileSystem P) (ID client) file sch of
                Inl p \<Rightarrow> Inl p
              | Inr fs' \<Rightarrow> Inr \<lparr>fileSystem = fs', clients = (clients P)[i := AtClose file]\<rparr>)
         | AtClose file \<Rightarrow>
             (case CloseFile (fileSystem P) file of
                Inl p \<Rightarrow> Inl p
              | Inr fs' \<Rightarrow> Inr \<lparr>fileSystem = fs', clients = (clients P)[i := Finished]\<rparr>)
         | Finished \<Rightarrow> Inr P)
      else Inr P)"

fun main_step :: "event \<Rightarrow> Program \<Rightarrow> panic + Program" where
  "main_step (Advance i load sch save) P = client_step i load sch save P"
| "main_step (Deliver k) P =
     (case run_goroutine k (fileSystem P) of
        Inl p \<Rightarrow> Inl p
      | Inr fs' \<Rightarrow> Inr (P\<lparr>fileSystem := fs'\<rparr>))"

fun main_run :: "event list \<Rightarrow> Program \<Rightarrow> panic + Program" where
  "main_run [] P = Inr P"
| "main_run (e # es) P = (case main_step e P of Inl p \<Rightarrow> Inl p | Inr P1 \<Rightarrow> main_run es P1)"

fun by_client :: "nat \<Rightarrow> event \<Rightarrow> bool" where
  "by_client i (Advance j load sch save) = (i = j)"
| "by_client i (Deliver k) = False"

section \<open>Specification and invariants\<close>

text \<open>
  The second loop in the words of the specification: \<open>polls n\<close> calls
  \<open>ReceiveAcknowledge\<close> exactly \<open>n\<close> times, once through, each call after the notify
  tasks the schedule lets run before it.
\<close>

fun polls :: "nat \<Rightarrow> sched \<Rightarrow> DistributedFileSystem \<Rightarrow> panic + DistributedFileSystem" where
  "polls 0 sch fs = Inr fs"
| "polls (Suc n) sch fs =
     (case run_goroutines (case sch of [] \<Rightarrow> [] | ks # _ \<Rightarrow> ks) fs of
        Inl p \<Rightarrow> Inl p
      | Inr fs1 \<Rightarrow> polls n (tl sch) (ReceiveAcknowledge fs1))"

text \<open>
  \<open>same_core\<close>: two states agree outside the acknowledgment array, the pending tasks and
  the printed lines. \<open>registry_ok\<close>: every allocated \<open>File\<close> is the registry entry of its
  name and every registry entry is an allocated \<open>File\<close> of that name. \<open>gate_inv\<close>: slot 0
  of a non-empty acknowledgment array is false, all ids in the ledger and in the pending
  tasks are positive and the reset was never reported.
\<close>

definition same_core :: "DistributedFileSystem \<Rightarrow> DistributedFileSystem \<Rightarrow> bool" where
  "same_core fs fs' \<longleftrightarrow>
     Files fs' = Files fs \<and> Requests fs' = Requests fs \<and> Timestamps fs' = Timestamps fs \<and>
     LogFile fs' = LogFile fs \<and> DeferredArray fs' = DeferredArray fs \<and> Store fs' = Store fs"

definition registry_ok :: "DistributedFileSystem \<Rightarrow> bool" where
  "registry_ok fs \<longleftrightarrow>
     (\<forall>a<length (Store fs). Files fs (Name (Store fs ! a)) = Some (Some a)) \<and>
     (\<forall>n p. Files fs n = Some p \<longrightarrow>
        (\<exists>a<length (Store fs). p = Some a \<and> Name (Store fs ! a) = n))"

definition gate_inv :: "nat \<Rightarrow> DistributedFileSystem \<Rightarrow> bool" where
  "gate_inv n fs \<longleftrightarrow>
     0 < n \<and> length (Acknowledged fs) = n \<and> \<not> Acknowledged fs ! 0 \<and>
     (\<forall>r\<in>set (Requests fs). 1 \<le> ClientID r) \<and>
     (\<forall>g\<in>set (Goroutines fs). 1 \<le> ClientID (snd g)) \<and>
     ''All acknowledgments received'' \<notin> set (Stdout fs)"

section \<open>Sample states\<close>

definition gate_demo :: DistributedFileSystem where
  "gate_demo = \<lparr>Files = Map.empty,
     Requests = [\<lparr>ClientID = 1, File = None, Timestamp = 1\<rparr>,
                 \<lparr>ClientID = 2, File = None, Timestamp = 2\<rparr>,
                 \<lparr>ClientID = 1, File = None, Timestamp = 3\<rparr>],
     Acknowledged = [True, True], Timestamps = [1, 2, 3], LogFile = [], DeferredArray = [],
     Store = [], Goroutines = [], Stdout = []\<rparr>"

definition three_clients :: DistributedFileSystem where
  "three_clients = \<lparr>Files = Map.empty, Requests = [], Acknowledged = [False, False, False],
     Timestamps = [], LogFile = [], DeferredArray = [], Store = [], Goroutines = [],
     Stdout = []\<rparr>"

definition opened :: DistributedFileSystem where
  "opened = \<lparr>Files = [''file1.txt'' \<mapsto> Some 0],
     Requests = [\<lparr>ClientID = 1, File = Some 0, Timestamp = 1\<rparr>],
     Acknowledged = [False, False, False],
     Timestamps = [1], LogFile = [''Client 1 Write file file1.txt at timestamp 1''],
     DeferredArray = [''Write by Client 1''],
     Store = [\<lparr>Name = ''file1.txt'', IsOpen = True, Content = ''A''\<rparr>], Goroutines = [],
     Stdout = []\<rparr>"

definition sample_calls :: "call list" where
  "sample_calls =
     [Open 1 ''file1.txt'' (Inr ''old''),
      Write 1 (Some 0) ''A'' [] None,
      Open 2 ''file1.txt'' (Inr ''old''),
      Write 2 (Some 0) ''B'' [[0]] (Some ''disk full''),
      Read 2 (Some 0) [],
      Notify 0,
      Close (Some 0)]"

definition two_clients :: Program where
  "two_clients =
     \<lparr>fileSystem =
        \<lparr>Files = Map.empty, Requests = [], Acknowledged = [False, False],
         Timestamps = [], LogFile = [], DeferredArray = [], Store = [],
         Goroutines = [], Stdout = [''Enter the number of clients: '']\<rparr>,
      clients = [AtOpen, AtOpen]\<rparr>"

definition sample_events :: "event list" where
  "sample_events =
     [Advance 0 (Inr ''old'') [] None,
      Advance 1 (Inr ''old'') [] None,
      Advance 0 (Inr ''old'') [] None,
      Advance 1 (Inr ''old'') [[0]] None,
      Advance 1 (Inr ''old'') [] None,
      Advance 0 (Inr ''old'') [[1, 0]] None,
      Deliver 0,
      Advance 0 (Inr ''old'') [] None,
      Advance 1 (Inr ''old'') [] None]"

definition two_slots :: DistributedFileSystem where
  "two_slots = \<lparr>Files = Map.empty, Requests = [], Acknowledged = [False, False],
     Timestamps = [], LogFile = [], DeferredArray = [], Store = [], Goroutines = [],
     Stdout = []\<rparr>"

definition gate_full :: DistributedFileSystem where
  "gate_full = \<lparr>Files = [''file1.txt'' \<mapsto> Some 0],
     Requests = [\<lparr>ClientID = 0, File = Some 0, Timestamp = 1\<rparr>,
                 \<lparr>ClientID = 1, File = Some 0, Timestamp = 2\<rparr>,
                 \<lparr>ClientID = 0, File = Some 0, Timestamp = 3\<rparr>],
     Acknowledged = [True, True], Timestamps = [1, 2, 3],
     LogFile = [''Client 0 Write file file1.txt at timestamp 1'',
                ''Client 1 Write file file1.txt at timestamp 2'',
                ''Client 0 Read file file1.txt at timestamp 3''],
     DeferredArray = [''Write by Client 0'', ''Write by Client 1'', ''Read by Client 0''],
     Store = [\<lparr>Name = ''file1.txt'', IsOpen = True, Content = ''C''\<rparr>],
     Goroutines = [],
     Stdout = [''Client 0 opened file file1.txt'',
               ''Client 0 wrote to file file1.txt: B'',
               ''Client 1 wrote to file file1.txt: C'',
               ''Client 0 read file file1.txt: C'',
               ''Client 1 sent request to client 0'',
               ''Client 0 sent request to client 1'']\<rparr>"

definition gate_reset :: DistributedFileSystem where
  "gate_reset = \<lparr>Files = [''file1.txt'' \<mapsto> Some 0],
     Requests = [\<lparr>ClientID = 0, File = Some 0, Timestamp = 1\<rparr>,
                 \<lparr>ClientID = 1, File = Some 0, Timestamp = 2\<rparr>,
                 \<lparr>ClientID = 0, File = Some 0, Timestamp = 3\<rparr>,
                 \<lparr>ClientID = 1, File = Some 0, Timestamp = 4\<rparr>],
     Acknowledged = [False, False, False, False], Timestamps = [1, 2, 3, 4],
     LogFile = [''Client 0 Write file file1.txt at timestamp 1'',
                ''Client 1 Write file file1.txt at timestamp 2'',
                ''Client 0 Read file file1.txt at timestamp 3'',
                ''Client 1 Read file file1.txt at timestamp 4''],
     DeferredArray = [''Write by Client 0'', ''Write by Client 1'', ''Read by Client 0'',
                      ''Read by Client 1''],
     Store = [\<lparr>Name = ''file1.txt'', IsOpen = True, Content = ''C''\<rparr>],
     Goroutines = [(1, \<lparr>ClientID = 0, File = Some 0, Timestamp = 1\<rparr>),
                   (1, \<lparr>ClientID = 0, File = Some 0, Timestamp = 3\<rparr>)],
     Stdout = [''Client 0 opened file file1.txt'',
               ''Client 0 wrote to file file1.txt: B'',
               ''Client 1 wrote to file file1.txt: C'',
               ''Client 0 read file file1.txt: C'',
               ''Client 1 sent request to client 0'',
               ''Client 0 sent request to client 1'',
               ''All acknowledgments received'',
               ''Client 1 read file file1.txt: C'']\<rparr>"

section \<open>Properties\<close>

subsection \<open>The acknowledgment gate\<close>

lemma ack_scan_iff: "ack_scan acks i \<longleftrightarrow> (\<forall>j. i \<le> j \<and> j < length acks \<longrightarrow> acks ! j)"
proof (induction acks i rule: ack_scan.induct)
  case (1 acks i)
  show ?case
  proof (cases "i < length acks")
    case False
    then show ?thesis by (auto simp: ack_scan.simps [of acks i])
  next
    case True
    show ?thesis
    proof (cases "acks ! i")
      case False
      with True show ?thesis by (auto simp: ack_scan.simps [of acks i])
    next
      case slot: True
      have "ack_scan acks i = ack_scan acks (Suc i)"
        using True slot by (simp add: ack_scan.simps [of acks i])
      also have "\<dots> \<longleftrightarrow> (\<forall>j. Suc i \<le> j \<and> j < length acks \<longrightarrow> acks ! j)"
        using "1.IH" True slot by simp
      also have "\<dots> \<longleftrightarrow> (\<forall>j. i \<le> j \<and> j < length acks \<longrightarrow> acks ! j)"
        using slot by (metis Suc_leI le_neq_implies_less Suc_leD)
      finally show ?thesis .
    qed
  qed
qed

lemma ack_scan_list_all: "ack_scan acks 0 = list_all (\<lambda>b. b) acks"
  by (simp add: ack_scan_iff list_all_length)

text \<open>
  Claim C2. \<open>ReceiveAcknowledge\<close> runs to its end (the scan returns \<open>True\<close> and the line
  \<open>All acknowledgments received\<close> is printed) exactly when every slot below the current
  length of the acknowledgment array is true. Then, and only then, the array is replaced by
  an all-false array as long as the ledger \<open>Requests\<close>; when some slot is false the state,
  and with it the array, stays as it was.
\<close>

theorem ReceiveAcknowledge_resets_iff_all_true:
  "ack_scan (Acknowledged fs) 0 = (\<forall>i<length (Acknowledged fs). Acknowledged fs ! i) \<and>
   (if \<forall>i<length (Acknowledged fs). Acknowledged fs ! i
    then ReceiveAcknowledge fs =
           fs\<lparr>Acknowledged := replicate (length (Requests fs)) False,
              Stdout := Stdout fs @ [''All acknowledgments received'']\<rparr>
    else ReceiveAcknowledge fs = fs)"
  by (auto simp: ReceiveAcknowledge_def ack_scan_iff println_def)

theorem ReceiveAcknowledge_resets_witness:
  "Acknowledged gate_demo = [True, True] \<and>
   Acknowledged (ReceiveAcknowledge gate_demo) = [False, False, False] \<and>
   Stdout (ReceiveAcknowledge gate_demo) = [''All acknowledgments received'']"
proof -
  have all: "\<forall>i<length (Acknowledged gate_demo). Acknowledged gate_demo ! i"
    by (simp add: gate_demo_def less_Suc_eq)
  from ReceiveAcknowledge_resets_iff_all_true [of gate_demo] all
  have "ReceiveAcknowledge gate_demo =
    gate_demo\<lparr>Acknowledged := replicate (length (Requests gate_demo)) False,
              Stdout := Stdout gate_demo @ [''All acknowledgments received'']\<rparr>"
    by presburger
  then show ?thesis by (simp add: gate_demo_def)
qed

text \<open>
  Claim C4. An id outside the bounds of the acknowledgment array is not always reported and
  ignored: \<open>SendRequest\<close> guards the upper bound only, so a negative id reaches the slice
  access and the task panics; the variant of \<open>cls.go\<close> has no guard and panics on every id
  outside the bounds, such as id 2 on the empty array its \<open>main\<close> builds.
\<close>

theorem SendRequest_negative_id_panics:
  "SendRequest \<lparr>Files = Map.empty, Requests = [], Acknowledged = [False, False, False],
       Timestamps = [], LogFile = [], DeferredArray = [], Store = [], Goroutines = [],
       Stdout = []\<rparr> 1 \<lparr>ClientID = - 1, File = None, Timestamp = 1\<rparr> = Inl IndexOutOfRange \<and>
   SendRequest_cls \<lparr>Files = Map.empty, Requests = [], Acknowledged = [],
       Timestamps = [], LogFile = [], DeferredArray = [], Store = [], Goroutines = [],
       Stdout = []\<rparr> 1 \<lparr>ClientID = 2, File = None, Timestamp = 1\<rparr> = Inl IndexOutOfRange"
  by (simp add: SendRequest_def SendRequest_cls_def println_def)

text \<open>
  From 0 on the guard works: an id below the length sets exactly its slot, an id from the
  length on is reported and nothing but the printed lines changes.
\<close>

lemma SendRequest_in_bounds:
  assumes "0 \<le> ClientID r" "ClientID r < int (length (Acknowledged fs))"
  shows "SendRequest fs c r =
     Inr (fs\<lparr>Acknowledged := (Acknowledged fs)[nat (ClientID r) := True],
             Stdout := Stdout fs @ [''Client '' @ itoa c @ '' sent request to client '' @
                          itoa (ClientID r)]\<rparr>)"
  using assms by (simp add: SendRequest_def println_def)

lemma SendRequest_above_bounds:
  assumes "int (length (Acknowledged fs)) \<le> ClientID r"
  shows "SendRequest fs c r =
     Inr (fs\<lparr>Stdout := Stdout fs @ [''Client '' @ itoa c @ '' sent request to client '' @
                          itoa (ClientID r), ''Invalid client ID in SendRequest......'']\<rparr>)"
  using assms by (simp add: SendRequest_def println_def)

subsection \<open>What the gate operations leave alone\<close>

lemma same_core_refl [simp]: "same_core fs fs"
  by (simp add: same_core_def)

lemma same_core_trans: "same_core a b \<Longrightarrow> same_core b c \<Longrightarrow> same_core a c"
  by (simp add: same_core_def)

lemma same_core_println [simp]: "same_core fs (println l fs)"
  by (simp add: same_core_def println_def)

lemma SendRequest_core: "SendRequest fs c r = Inr fs' \<Longrightarrow> same_core fs fs'"
  by (auto simp: SendRequest_def same_core_def println_def Let_def split: if_splits)

lemma ReceiveAcknowledge_core: "same_core fs (ReceiveAcknowledge fs)"
  by (simp add: ReceiveAcknowledge_def same_core_def println_def)

lemma run_goroutine_core: "run_goroutine k fs = Inr fs' \<Longrightarrow> same_core fs fs'"
  by (auto simp: run_goroutine_def same_core_def split: if_splits prod.splits
           dest!: SendRequest_core)

lemma run_goroutines_core: "run_goroutines ks fs = Inr fs' \<Longrightarrow> same_core fs fs'"
proof (induction ks arbitrary: fs)
  case Nil
  then show ?case by simp
next
  case (Cons k ks)
  then show ?case
    by (auto split: sum.splits dest: run_goroutine_core same_core_trans)
qed

lemma spawn_loop_eq:
  "spawn_loop rs c fs =
     fs\<lparr>Goroutines := Goroutines fs @ map (Pair c) (filter (\<lambda>r. ClientID r \<noteq> c) rs)\<rparr>"
  by (induction rs arbitrary: fs) simp_all

lemma poll_loop_polls:
  "poll_loop rs c sch fs = polls (length (filter (\<lambda>r. ClientID r \<noteq> c) rs)) sch fs"
  by (induction rs arbitrary: sch fs) (simp_all split: sum.splits)

lemma polls_core: "polls n sch fs = Inr fs' \<Longrightarrow> same_core fs fs'"
proof (induction n arbitrary: sch fs)
  case 0
  then show ?case by simp
next
  case (Suc n)
  from Suc.prems obtain fs1 where
    g: "run_goroutines (case sch of [] \<Rightarrow> [] | ks # _ \<Rightarrow> ks) fs = Inr fs1" and
    p: "polls n (tl sch) (ReceiveAcknowledge fs1) = Inr fs'"
    by (auto split: sum.splits)
  have "same_core fs fs1" using g by (rule run_goroutines_core)
  moreover have "same_core fs1 (ReceiveAcknowledge fs1)" by (rule ReceiveAcknowledge_core)
  moreover have "same_core (ReceiveAcknowledge fs1) fs'" using p by (rule Suc.IH)
  ultimately show ?case by (blast intro: same_core_trans)
qed

lemma poll_loop_core: "poll_loop rs c sch fs = Inr fs' \<Longrightarrow> same_core fs fs'"
  by (simp add: poll_loop_polls polls_core)

subsection \<open>The effect of one call\<close>

text \<open>
What a returning \<open>WriteFile\<close> or \<open>ReadFile\<close> has done to the fields outside the gate.
\<close>

lemma WriteFile_Inr:
  assumes "WriteFile fs c file content sch save = Inr fs'"
  obtains a where "file = Some a" "a < length (Store fs)"
    "Files fs' = Files fs"
    "Store fs' = (Store fs)[a := (Store fs ! a)\<lparr>Content := content\<rparr>]"
    "Timestamps fs' = Timestamps fs @ [int (length (Timestamps fs)) + 1]"
    "Requests fs' = Requests fs @
       [\<lparr>ClientID = c, File = file, Timestamp = int (length (Timestamps fs)) + 1\<rparr>]"
    "LogFile fs' = (case save of Some err \<Rightarrow> LogFile fs | None \<Rightarrow> LogFile fs @
       [''Client '' @ itoa c @ '' Write file '' @ Name (Store fs ! a) @
        '' at timestamp '' @ itoa (int (length (Timestamps fs)) + 1)])"
    "DeferredArray fs' = (case save of Some err \<Rightarrow> DeferredArray fs
       | None \<Rightarrow> DeferredArray fs @ [''Write by Client '' @ itoa c])"
proof -
  let ?ts = "int (length (Timestamps fs)) + 1"
  let ?fs3 = "spawn_loop (Requests fs @ [\<lparr>ClientID = c, File = file, Timestamp = ?ts\<rparr>]) c
      (fs\<lparr>Timestamps := Timestamps fs @ [?ts],
          Requests := Requests fs @ [\<lparr>ClientID = c, File = file, Timestamp = ?ts\<rparr>]\<rparr>)"
  from assms obtain fs4 f where
    p: "poll_loop (Requests ?fs3) c sch ?fs3 = Inr fs4" and
    d: "deref (Store fs4) file = Some f" and
    r: "fs' = (case save of
          Some err \<Rightarrow> println (''Error writing to file '' @ Name f @ '': '' @ err)
             (fs4\<lparr>Store := (Store fs4)[the file := f\<lparr>Content := content\<rparr>]\<rparr>)
        | None \<Rightarrow> AddDeferredOperation (LogRequest
             (println (''Client '' @ itoa c @ '' wrote to file '' @ Name f @ '': '' @ content)
                (fs4\<lparr>Store := (Store fs4)[the file := f\<lparr>Content := content\<rparr>]\<rparr>))
             c ''Write'' (Name f) ?ts) (''Write by Client '' @ itoa c))"
    by (auto simp: WriteFile_def Let_def split: sum.splits option.splits)
  have core: "same_core ?fs3 fs4" using p by (rule poll_loop_core)
  have st: "Store fs4 = Store fs" using core by (simp add: same_core_def spawn_loop_eq)
  from d st obtain a where a: "file = Some a" "a < length (Store fs)" "f = Store fs ! a"
    by (auto simp: deref_def split: option.splits if_splits)
  show thesis
  proof (rule that [OF a(1) a(2)])
    show "Files fs' = Files fs"
      using core r by (cases save) (simp_all add: same_core_def spawn_loop_eq println_def
          LogRequest_def AddDeferredOperation_def)
    show "Store fs' = (Store fs)[a := (Store fs ! a)\<lparr>Content := content\<rparr>]"
      using core r a by (cases save) (simp_all add: same_core_def spawn_loop_eq println_def
          LogRequest_def AddDeferredOperation_def)
    show "Timestamps fs' = Timestamps fs @ [?ts]"
      using core r by (cases save) (simp_all add: same_core_def spawn_loop_eq println_def
          LogRequest_def AddDeferredOperation_def)
    show "Requests fs' = Requests fs @ [\<lparr>ClientID = c, File = file, Timestamp = ?ts\<rparr>]"
      using core r by (cases save) (simp_all add: same_core_def spawn_loop_eq println_def
          LogRequest_def AddDeferredOperation_def)
    show "LogFile fs' = (case save of Some err \<Rightarrow> LogFile fs | None \<Rightarrow> LogFile fs @
       [''Client '' @ itoa c @ '' Write file '' @ Name (Store fs ! a) @
        '' at timestamp '' @ itoa ?ts])"
      using core r a by (cases save) (simp_all add: same_core_def spawn_loop_eq println_def
          LogRequest_def AddDeferredOperation_def)
    show "DeferredArray fs' = (case save of Some err \<Rightarrow> DeferredArray fs
       | None \<Rightarrow> DeferredArray fs @ [''Write by Client '' @ itoa c])"
      using core r by (cases save) (simp_all add: same_core_def spawn_loop_eq println_def
          LogRequest_def AddDeferredOperation_def)
  qed
qed

lemma ReadFile_Inr:
  assumes "ReadFile fs c file sch = Inr fs'"
  obtains a where "file = Some a" "a < length (Store fs)"
    "Files fs' = Files fs"
    "Store fs' = Store fs"
    "Timestamps fs' = Timestamps fs @ [int (length (Timestamps fs)) + 1]"
    "Requests fs' = Requests fs @
       [\<lparr>ClientID = c, File = file, Timestamp = int (length (Timestamps fs)) + 1\<rparr>]"
    "LogFile fs' = LogFile fs @
       [''Client '' @ itoa c @ '' Read file '' @ Name (Store fs ! a) @
        '' at timestamp '' @ itoa (int (length (Timestamps fs)) + 1)]"
    "DeferredArray fs' = DeferredArray fs @ [''Read by Client '' @ itoa c]"
proof -
  let ?ts = "int (length (Timestamps fs)) + 1"
  let ?fs3 = "spawn_loop (Requests fs @ [\<lparr>ClientID = c, File = file, Timestamp = ?ts\<rparr>]) c
      (fs\<lparr>Timestamps := Timestamps fs @ [?ts],
          Requests := Requests fs @ [\<lparr>ClientID = c, File = file, Timestamp = ?ts\<rparr>]\<rparr>)"
  from assms obtain fs4 f where
    p: "poll_loop (Requests ?fs3) c sch ?fs3 = Inr fs4" and
    d: "deref (Store fs4) file = Some f" and
    r: "fs' = AddDeferredOperation (LogRequest
             (println (''Client '' @ itoa c @ '' read file '' @ Name f @ '': '' @ Content f) fs4)
             c ''Read'' (Name f) ?ts) (''Read by Client '' @ itoa c)"
    by (auto simp: ReadFile_def Let_def split: sum.splits option.splits)
  have core: "same_core ?fs3 fs4" using p by (rule poll_loop_core)
  have st: "Store fs4 = Store fs" using core by (simp add: same_core_def spawn_loop_eq)
  from d st obtain a where a: "file = Some a" "a < length (Store fs)" "f = Store fs ! a"
    by (auto simp: deref_def split: option.splits if_splits)
  show thesis
    by (rule that [OF a(1) a(2)])
      (use core r a in \<open>simp_all add: same_core_def spawn_loop_eq println_def
          LogRequest_def AddDeferredOperation_def\<close>)
qed

lemma OpenFile_load_failure:
  "Files fs n = None \<Longrightarrow>
   OpenFile fs c n (Inl err) =
     Inr (None, fs\<lparr>Stdout := Stdout fs @ [''Error opening file '' @ n @ '': '' @ err]\<rparr>)"
  by (simp add: OpenFile_def println_def Let_def)

lemma OpenFile_new:
  "Files fs n = None \<Longrightarrow>
   OpenFile fs c n (Inr content) =
     Inr (Some (length (Store fs)),
          fs\<lparr>Store := Store fs @ [\<lparr>Name = n, IsOpen = True, Content = content\<rparr>],
             Files := (Files fs)(n \<mapsto> Some (length (Store fs))),
             Stdout := Stdout fs @ [''Client '' @ itoa c @ '' opened file '' @ n]\<rparr>)"
  by (simp add: OpenFile_def println_def Let_def)

lemma OpenFile_existing:
  "Files fs n = Some (Some a) \<Longrightarrow> a < length (Store fs) \<Longrightarrow>
   OpenFile fs c n load =
     Inr (Some a,
          fs\<lparr>Store := (Store fs)[a := (Store fs ! a)\<lparr>IsOpen := True\<rparr>],
             Stdout := Stdout fs @ [''Client '' @ itoa c @ '' opened file '' @ n]\<rparr>)"
  by (simp add: OpenFile_def println_def deref_def Let_def)

lemma OpenFile_Inr:
  assumes "OpenFile fs c n load = Inr (file, fs')"
  shows "Requests fs' = Requests fs \<and> Timestamps fs' = Timestamps fs \<and>
         LogFile fs' = LogFile fs \<and> DeferredArray fs' = DeferredArray fs \<and>
         Acknowledged fs' = Acknowledged fs \<and> Goroutines fs' = Goroutines fs"
  using assms
  by (auto simp: OpenFile_def println_def Let_def split: option.splits sum.splits)

lemma CloseFile_Inr:
  assumes "CloseFile fs file = Inr fs'"
  obtains a where "file = Some a" "a < length (Store fs)"
    "fs' = fs\<lparr>Store := (Store fs)[a := (Store fs ! a)\<lparr>IsOpen := False\<rparr>],
              Stdout := Stdout fs @ [''File '' @ Name (Store fs ! a) @ '' closed'']\<rparr>"
  using assms
  by (auto simp: CloseFile_def println_def deref_def Let_def split: option.splits if_splits)

text \<open>
How one call changes the store: objects are added, never removed or renamed.
\<close>

lemma exec_Store:
  assumes "exec c fs = Inr fs'" "a < length (Store fs)"
  shows "a < length (Store fs') \<and> Name (Store fs' ! a) = Name (Store fs ! a) \<and>
         Content (Store fs' ! a) =
           (case written a c of Some content \<Rightarrow> content | None \<Rightarrow> Content (Store fs ! a))"
proof (cases c)
  case (Open clientID n load)
  with assms show ?thesis
    by (auto simp: OpenFile_def println_def deref_def Let_def nth_append nth_list_update
        split: option.splits sum.splits if_splits)
next
  case (Close fp)
  with assms show ?thesis
    by (auto elim!: CloseFile_Inr simp: nth_list_update)
next
  case (Read clientID fp sch)
  with assms show ?thesis
    by (auto elim!: ReadFile_Inr)
next
  case (Write clientID fp content sch save)
  with assms show ?thesis
    by (auto elim!: WriteFile_Inr simp: nth_list_update)
next
  case (Notify k)
  with assms show ?thesis
    by (auto dest!: run_goroutine_core simp: same_core_def)
qed

lemma run_untouched:
  assumes "run cs fs = Inr fs'" "last_written a cs = None" "a < length (Store fs)"
  shows "a < length (Store fs') \<and> Content (Store fs' ! a) = Content (Store fs ! a)"
  using assms
proof (induction cs arbitrary: fs)
  case Nil
  then show ?case by simp
next
  case (Cons c cs)
  from Cons.prems(1) obtain fs1 where e: "exec c fs = Inr fs1" and r: "run cs fs1 = Inr fs'"
    by (auto split: sum.splits)
  from Cons.prems(2) have w: "written a c = None" and l: "last_written a cs = None"
    by (auto split: option.splits)
  from exec_Store [OF e Cons.prems(3)] w
  have s: "a < length (Store fs1)" "Content (Store fs1 ! a) = Content (Store fs ! a)"
    by simp_all
  from Cons.IH [OF r l s(1)] s(2) show ?case by simp
qed

lemma sample_run_returns: "\<exists>fs'. run sample_calls three_clients = Inr fs'"
  by (simp add: sample_calls_def three_clients_def OpenFile_def WriteFile_def ReadFile_def
      CloseFile_def run_goroutine_def SendRequest_def ReceiveAcknowledge_def println_def
      LogRequest_def AddDeferredOperation_def deref_def ack_scan_list_all Let_def)

subsection \<open>Last writer wins\<close>

text \<open>
  Claim C1. After any run of calls that all return, the content of a handle is the content
  argument of the last \<open>Write\<close> on it in admission order: each \<open>Write\<close> replaces the whole
  content, and no other call changes it. Whether the saves succeeded plays no role.
\<close>

theorem last_writer_wins:
  assumes "run cs fs = Inr fs'" "last_written a cs = Some content"
  shows "a < length (Store fs') \<and> Content (Store fs' ! a) = content"
  using assms
proof (induction cs arbitrary: fs)
  case Nil
  then show ?case by simp
next
  case (Cons c cs)
  from Cons.prems(1) obtain fs1 where e: "exec c fs = Inr fs1" and r: "run cs fs1 = Inr fs'"
    by (auto split: sum.splits)
  show ?case
  proof (cases "last_written a cs")
    case (Some x)
    with Cons.prems(2) have "last_written a cs = Some content" by simp
    from Cons.IH [OF r this] show ?thesis .
  next
    case None
    with Cons.prems(2) have w: "written a c = Some content" by simp
    then obtain clientID sch save where c: "c = Write clientID (Some a) content sch save"
      by (cases c) (auto split: if_splits)
    from e c have a: "a < length (Store fs)"
      by (auto elim!: WriteFile_Inr)
    from exec_Store [OF e a] w
    have s: "a < length (Store fs1)" "Content (Store fs1 ! a) = content"
      by simp_all
    from run_untouched [OF r None s(1)] s(2) show ?thesis by simp
  qed
qed

theorem last_writer_wins_witness:
  "last_written 0 sample_calls = Some ''B'' \<and>
   (case run sample_calls three_clients of
      Inl p \<Rightarrow> False
    | Inr fs' \<Rightarrow> Content (Store fs' ! 0) = ''B'')"
proof -
  obtain fs' where r: "run sample_calls three_clients = Inr fs'"
    using sample_run_returns by blast
  have l: "last_written 0 sample_calls = Some ''B''"
    by (simp add: sample_calls_def)
  from last_writer_wins [OF r l] r l show ?thesis by simp
qed

subsection \<open>Timestamps\<close>

lemma exec_Timestamps:
  assumes "exec c fs = Inr fs'"
  shows "Timestamps fs' = (if is_access c then Timestamps fs @ [int (length (Timestamps fs)) + 1]
                           else Timestamps fs) \<and>
         map Timestamp (Requests fs') =
           (if is_access c then map Timestamp (Requests fs) @ [int (length (Timestamps fs)) + 1]
            else map Timestamp (Requests fs))"
proof (cases c)
  case (Open clientID n load)
  with assms show ?thesis
    by (auto split: sum.splits dest: OpenFile_Inr)
next
  case (Close fp)
  with assms show ?thesis
    by (auto elim!: CloseFile_Inr)
next
  case (Read clientID fp sch)
  with assms show ?thesis
    by (auto elim!: ReadFile_Inr)
next
  case (Write clientID fp content sch save)
  with assms show ?thesis
    by (auto elim!: WriteFile_Inr)
next
  case (Notify k)
  with assms show ?thesis
    by (auto dest!: run_goroutine_core simp: same_core_def)
qed

lemma run_Timestamps:
  assumes "run cs fs = Inr fs'"
    "Timestamps fs = [1..int k]" "map Timestamp (Requests fs) = [1..int k]"
  shows "Timestamps fs' = [1..int (k + length (filter is_access cs))] \<and>
         map Timestamp (Requests fs') = [1..int (k + length (filter is_access cs))]"
  using assms
proof (induction cs arbitrary: fs k)
  case Nil
  then show ?case by simp
next
  case (Cons c cs)
  from Cons.prems(1) obtain fs1 where e: "exec c fs = Inr fs1" and r: "run cs fs1 = Inr fs'"
    by (auto split: sum.splits)
  have len: "length (Timestamps fs) = k" using Cons.prems(2) by simp
  show ?case
  proof (cases "is_access c")
    case True
    have up: "[1..int (Suc k)] = [1..int k] @ [int k + 1]"
      using upto_rec2 [of 1 "int k + 1"] by (simp add: add.commute)
    from exec_Timestamps [OF e] True len Cons.prems(2,3) up
    have "Timestamps fs1 = [1..int (Suc k)]" "map Timestamp (Requests fs1) = [1..int (Suc k)]"
      by simp_all
    from Cons.IH [OF r this] True show ?thesis by simp
  next
    case False
    from exec_Timestamps [OF e] False Cons.prems(2,3)
    have "Timestamps fs1 = [1..int k]" "map Timestamp (Requests fs1) = [1..int k]"
      by simp_all
    from Cons.IH [OF r this] False show ?thesis by simp
  qed
qed

text \<open>
  Claim C3. Starting from the empty ledger, the \<open>N\<close> reads and writes of a run are given the
  timestamps \<open>1, \<dots>, N\<close> in the order of their admission: each allocation returns the next
  unused positive integer, so the timestamps are distinct, increasing and contiguous.
\<close>

theorem timestamps_contiguous:
  assumes "run cs fs = Inr fs'" "Timestamps fs = []" "Requests fs = []"
  shows "Timestamps fs' = [1..int (length (filter is_access cs))] \<and>
         map Timestamp (Requests fs') = [1..int (length (filter is_access cs))] \<and>
         distinct (Timestamps fs') \<and> sorted_wrt (<) (Timestamps fs')"
proof -
  from run_Timestamps [OF assms(1), of 0] assms(2,3)
  have t: "Timestamps fs' = [1..int (length (filter is_access cs))]"
    "map Timestamp (Requests fs') = [1..int (length (filter is_access cs))]"
    by simp_all
  then show ?thesis by simp
qed

theorem timestamps_contiguous_witness:
  "length (filter is_access sample_calls) = 3 \<and>
   (case run sample_calls three_clients of
      Inl p \<Rightarrow> False
    | Inr fs' \<Rightarrow> Timestamps fs' = [1, 2, 3] \<and> map Timestamp (Requests fs') = [1, 2, 3])"
proof -
  obtain fs' where r: "run sample_calls three_clients = Inr fs'"
    using sample_run_returns by blast
  have n: "length (filter is_access sample_calls) = 3"
    by (simp add: sample_calls_def)
  have u: "[1..3] = [1, 2, 3::int]"
    by (simp add: upto.simps)
  from timestamps_contiguous [OF r] n u r show ?thesis
    by (simp add: three_clients_def)
qed

subsection \<open>The audit log\<close>

lemma exec_LogFile:
  assumes "exec c fs = Inr fs'"
  shows "length (LogFile fs') = length (LogFile fs) + (if completes c then 1 else 0) \<and>
         length (DeferredArray fs') = length (DeferredArray fs) + (if completes c then 1 else 0)"
proof (cases c)
  case (Open clientID n load)
  with assms show ?thesis
    by (auto split: sum.splits dest: OpenFile_Inr)
next
  case (Close fp)
  with assms show ?thesis
    by (auto elim!: CloseFile_Inr)
next
  case (Read clientID fp sch)
  with assms show ?thesis
    by (auto elim!: ReadFile_Inr)
next
  case (Write clientID fp content sch save)
  with assms show ?thesis
    by (cases save) (auto elim!: WriteFile_Inr)
next
  case (Notify k)
  with assms show ?thesis
    by (auto dest!: run_goroutine_core simp: same_core_def)
qed

lemma run_LogFile:
  assumes "run cs fs = Inr fs'"
  shows "length (LogFile fs') = length (LogFile fs) + length (filter completes cs) \<and>
         length (DeferredArray fs') = length (DeferredArray fs) + length (filter completes cs)"
  using assms
proof (induction cs arbitrary: fs)
  case Nil
  then show ?case by simp
next
  case (Cons c cs)
  from Cons.prems obtain fs1 where e: "exec c fs = Inr fs1" and r: "run cs fs1 = Inr fs'"
    by (auto split: sum.splits)
  from exec_LogFile [OF e] Cons.IH [OF r] show ?case by simp
qed

text \<open>
  Claim C5. A \<open>WriteFile\<close> whose save fails has replaced the content of the handle and has
  appended neither an audit line nor a deferred-operation label. Over a run, the audit log
  and the deferred-operation list grow by exactly the number of reads and of writes with a
  successful save.
\<close>

theorem failed_save_keeps_content_and_logs_nothing:
  "(WriteFile fs clientID (Some a) content sch (Some err) = Inr fs1 \<longrightarrow>
      Content (Store fs1 ! a) = content \<and> LogFile fs1 = LogFile fs \<and>
      DeferredArray fs1 = DeferredArray fs) \<and>
   (run cs fs = Inr fs' \<longrightarrow>
      length (LogFile fs') = length (LogFile fs) + length (filter completes cs) \<and>
      length (DeferredArray fs') = length (DeferredArray fs) + length (filter completes cs))"
proof (intro conjI impI)
  assume w: "WriteFile fs clientID (Some a) content sch (Some err) = Inr fs1"
  then show "Content (Store fs1 ! a) = content"
    by (auto elim!: WriteFile_Inr)
  from w show "LogFile fs1 = LogFile fs"
    by (auto elim!: WriteFile_Inr)
  from w show "DeferredArray fs1 = DeferredArray fs"
    by (auto elim!: WriteFile_Inr)
next
  assume r: "run cs fs = Inr fs'"
  from run_LogFile [OF r]
  show "length (LogFile fs') = length (LogFile fs) + length (filter completes cs)"
    "length (DeferredArray fs') = length (DeferredArray fs) + length (filter completes cs)"
    by simp_all
qed

lemma sample_failed_write_returns:
  "\<exists>fs1. WriteFile opened 2 (Some 0) ''B'' [[0]] (Some ''disk full'') = Inr fs1"
  by (simp add: opened_def WriteFile_def run_goroutine_def SendRequest_def
      ReceiveAcknowledge_def println_def deref_def ack_scan_list_all Let_def)

theorem failed_save_witness:
  "(case WriteFile opened 2 (Some 0) ''B'' [[0]] (Some ''disk full'') of
      Inl p \<Rightarrow> False
    | Inr fs1 \<Rightarrow> Content (Store fs1 ! 0) = ''B'' \<and> length (LogFile fs1) = 1 \<and>
        length (DeferredArray fs1) = 1) \<and>
   length (filter completes sample_calls) = 2 \<and>
   (case run sample_calls three_clients of
      Inl p \<Rightarrow> False
    | Inr fs' \<Rightarrow> length (LogFile fs') = 2 \<and> length (DeferredArray fs') = 2)"
proof -
  obtain fs1 where w: "WriteFile opened 2 (Some 0) ''B'' [[0]] (Some ''disk full'') = Inr fs1"
    using sample_failed_write_returns by blast
  obtain fs' where r: "run sample_calls three_clients = Inr fs'"
    using sample_run_returns by blast
  have n: "length (filter completes sample_calls) = 2"
    by (simp add: sample_calls_def)
  from failed_save_keeps_content_and_logs_nothing
    [of opened 2 0 "''B''" "[[0]]" "''disk full''" fs1 sample_calls fs']
  have "Content (Store fs1 ! 0) = ''B''" "LogFile fs1 = LogFile opened"
    "DeferredArray fs1 = DeferredArray opened"
    using w by simp_all
  moreover
  from failed_save_keeps_content_and_logs_nothing
    [of three_clients 2 0 "''B''" "[[0]]" "''disk full''" fs1 sample_calls fs']
  have "length (LogFile fs') = length (LogFile three_clients) + 2"
    "length (DeferredArray fs') = length (DeferredArray three_clients) + 2"
    using r n by simp_all
  ultimately show ?thesis using w r n
    by (simp add: opened_def three_clients_def)
qed

subsection \<open>Read changes no handle\<close>

text \<open>
  A read can change the acknowledgment array. The state \<open>gate_full\<close> is reached by two
  clients with the ids 0 and 1 on an array of two slots; both slots are true in it, so the
  one poll of the next read, by client 1, resets the array to the length of the ledger.
\<close>

lemma itoa_small:
  "itoa 0 = ''0''" "itoa 1 = ''1''" "itoa 2 = ''2''" "itoa 3 = ''3''" "itoa 4 = ''4''"
  by (simp_all add: itoa_def digits.simps)

lemma gate_full_reachable:
  "run [Open 0 ''file1.txt'' (Inr ''A''), Write 0 (Some 0) ''B'' [] None,
        Write 1 (Some 0) ''C'' [] None, Read 0 (Some 0) [], Notify 0, Notify 0] two_slots
     = Inr gate_full"
  by (simp add: two_slots_def gate_full_def OpenFile_def WriteFile_def ReadFile_def
      run_goroutine_def SendRequest_def ReceiveAcknowledge_def println_def
      LogRequest_def AddDeferredOperation_def deref_def ack_scan_list_all Let_def itoa_small)

theorem ReadFile_resets_gate:
  "ReadFile gate_full 1 (Some 0) [] = Inr gate_reset \<and>
   Acknowledged gate_full = [True, True] \<and>
   Acknowledged gate_reset = [False, False, False, False]"
  by (simp add: gate_full_def gate_reset_def ReadFile_def
      ReceiveAcknowledge_def println_def
      LogRequest_def AddDeferredOperation_def deref_def ack_scan_list_all Let_def itoa_small)

text \<open>
  Claim C9, as amended. A returning \<open>ReadFile\<close> leaves every \<open>File\<close> object (name, open
  flag and content) and the registry as they were, and extends the ledger, the timestamp
  list, the audit log and the deferred-operation list by one entry each. These are six of
  the nine fields of the state: what else a read can change is the acknowledgment array
  (through its polls and the notify tasks), the pending notify tasks and the printed lines.
\<close>

theorem ReadFile_frame:
  assumes "ReadFile fs clientID file sch = Inr fs'"
  shows "Store fs' = Store fs \<and> Files fs' = Files fs \<and>
         Requests fs' = Requests fs @
           [\<lparr>ClientID = clientID, File = file,
             Timestamp = int (length (Timestamps fs)) + 1\<rparr>] \<and>
         Timestamps fs' = Timestamps fs @ [int (length (Timestamps fs)) + 1] \<and>
         (\<exists>f. deref (Store fs) file = Some f \<and>
            LogFile fs' = LogFile fs @
              [''Client '' @ itoa clientID @ '' Read file '' @ Name f @
               '' at timestamp '' @ itoa (int (length (Timestamps fs)) + 1)]) \<and>
         DeferredArray fs' = DeferredArray fs @ [''Read by Client '' @ itoa clientID]"
  using assms by (auto elim!: ReadFile_Inr simp: deref_def)

lemma sample_read_returns: "\<exists>fs'. ReadFile opened 2 (Some 0) [[0]] = Inr fs'"
  by (simp add: opened_def ReadFile_def run_goroutine_def SendRequest_def
      ReceiveAcknowledge_def println_def deref_def ack_scan_list_all Let_def
      LogRequest_def AddDeferredOperation_def)

theorem ReadFile_frame_witness:
  "(case ReadFile opened 2 (Some 0) [[0]] of
      Inl p \<Rightarrow> False
    | Inr fs' \<Rightarrow>
        Store fs' = [\<lparr>Name = ''file1.txt'', IsOpen = True, Content = ''A''\<rparr>] \<and>
        Files fs' = [''file1.txt'' \<mapsto> Some 0] \<and>
        map ClientID (Requests fs') = [1, 2] \<and> Timestamps fs' = [1, 2] \<and>
        length (LogFile fs') = 2 \<and>
        length (DeferredArray fs') = 2)"
proof -
  obtain fs' where r: "ReadFile opened 2 (Some 0) [[0]] = Inr fs'"
    using sample_read_returns by blast
  from ReadFile_frame [OF r] r show ?thesis
    by (auto simp: opened_def)
qed

subsection \<open>The admission protocol\<close>

lemma WriteFile_gate:
  assumes "WriteFile fs c file content sch save = Inr fs'"
  shows "\<exists>fs4. poll_loop (Requests fs @ [\<lparr>ClientID = c, File = file,
                   Timestamp = int (length (Timestamps fs)) + 1\<rparr>]) c sch
           (spawn_loop (Requests fs @ [\<lparr>ClientID = c, File = file,
                   Timestamp = int (length (Timestamps fs)) + 1\<rparr>]) c
              (fs\<lparr>Timestamps := Timestamps fs @ [int (length (Timestamps fs)) + 1],
                  Requests := Requests fs @ [\<lparr>ClientID = c, File = file,
                   Timestamp = int (length (Timestamps fs)) + 1\<rparr>]\<rparr>)) = Inr fs4 \<and>
         Acknowledged fs' = Acknowledged fs4 \<and> Goroutines fs' = Goroutines fs4"
  using assms
  by (auto simp: WriteFile_def Let_def spawn_loop_eq println_def LogRequest_def
      AddDeferredOperation_def split: sum.splits option.splits)

lemma ReadFile_gate:
  assumes "ReadFile fs c file sch = Inr fs'"
  shows "\<exists>fs4. poll_loop (Requests fs @ [\<lparr>ClientID = c, File = file,
                   Timestamp = int (length (Timestamps fs)) + 1\<rparr>]) c sch
           (spawn_loop (Requests fs @ [\<lparr>ClientID = c, File = file,
                   Timestamp = int (length (Timestamps fs)) + 1\<rparr>]) c
              (fs\<lparr>Timestamps := Timestamps fs @ [int (length (Timestamps fs)) + 1],
                  Requests := Requests fs @ [\<lparr>ClientID = c, File = file,
                   Timestamp = int (length (Timestamps fs)) + 1\<rparr>]\<rparr>)) = Inr fs4 \<and>
         Acknowledged fs' = Acknowledged fs4 \<and> Goroutines fs' = Goroutines fs4"
  using assms
  by (auto simp: ReadFile_def Let_def spawn_loop_eq println_def LogRequest_def
      AddDeferredOperation_def split: sum.splits option.splits)

text \<open>
  Claim C7. A returning \<open>ReadFile\<close> or \<open>WriteFile\<close> appends exactly one request, with the
  caller's id, the target handle and the fresh timestamp; its first loop starts one notify
  task for every request of the whole ledger, old ones included, whose id differs from the
  caller's; its second loop is \<open>polls\<close> for the number of those requests, one call of
  \<open>ReceiveAcknowledge\<close> for each and no more, and the acknowledgment array and the pending
  tasks after the call are those that these polls leave.
\<close>

theorem admission_protocol:
  assumes "WriteFile fs clientID file content sch save = Inr fs' \<or>
           ReadFile fs clientID file sch = Inr fs'"
  shows "(let request = \<lparr>ClientID = clientID, File = file,
                         Timestamp = int (length (Timestamps fs)) + 1\<rparr>;
              others = filter (\<lambda>r. ClientID r \<noteq> clientID) (Requests fs);
              fs2 = fs\<lparr>Timestamps := Timestamps fs @ [int (length (Timestamps fs)) + 1],
                       Requests := Requests fs @ [request]\<rparr>;
              fs3 = fs2\<lparr>Goroutines := Goroutines fs @ map (Pair clientID) others\<rparr>
          in Requests fs' = Requests fs @ [request] \<and>
             spawn_loop (Requests fs2) clientID fs2 = fs3 \<and>
             poll_loop (Requests fs3) clientID sch fs3 = polls (length others) sch fs3 \<and>
             (\<exists>fs4. polls (length others) sch fs3 = Inr fs4 \<and>
                    Acknowledged fs' = Acknowledged fs4 \<and> Goroutines fs' = Goroutines fs4))"
proof -
  let ?r = "\<lparr>ClientID = clientID, File = file, Timestamp = int (length (Timestamps fs)) + 1\<rparr>"
  let ?fs2 = "fs\<lparr>Timestamps := Timestamps fs @ [int (length (Timestamps fs)) + 1],
                 Requests := Requests fs @ [?r]\<rparr>"
  let ?others = "filter (\<lambda>r. ClientID r \<noteq> clientID) (Requests fs)"
  let ?fs3 = "?fs2\<lparr>Goroutines := Goroutines fs @ map (Pair clientID) ?others\<rparr>"
  have f: "filter (\<lambda>r. ClientID r \<noteq> clientID) (Requests fs @ [?r]) = ?others"
    by simp
  have sp: "spawn_loop (Requests fs @ [?r]) clientID ?fs2 = ?fs3"
    by (simp add: spawn_loop_eq)
  have pl: "poll_loop (Requests fs @ [?r]) clientID sch ?fs3 = polls (length ?others) sch ?fs3"
    by (simp only: poll_loop_polls f)
  have rq: "Requests fs' = Requests fs @ [?r]"
    using assms by (auto elim!: WriteFile_Inr ReadFile_Inr)
  from assms obtain fs4 where
    "poll_loop (Requests fs @ [?r]) clientID sch (spawn_loop (Requests fs @ [?r]) clientID ?fs2)
       = Inr fs4"
    "Acknowledged fs' = Acknowledged fs4" "Goroutines fs' = Goroutines fs4"
    using WriteFile_gate ReadFile_gate by blast
  then have "\<exists>fs4. polls (length ?others) sch ?fs3 = Inr fs4 \<and>
      Acknowledged fs' = Acknowledged fs4 \<and> Goroutines fs' = Goroutines fs4"
    using sp pl by auto
  with rq sp pl show ?thesis
    by (simp add: Let_def)
qed

lemma sample_write_returns: "\<exists>fs'. WriteFile opened 2 (Some 0) ''B'' [[0]] None = Inr fs'"
  by (simp add: opened_def WriteFile_def run_goroutine_def SendRequest_def
      ReceiveAcknowledge_def println_def deref_def ack_scan_list_all Let_def
      LogRequest_def AddDeferredOperation_def)

theorem admission_protocol_witness:
  "(case WriteFile opened 2 (Some 0) ''B'' [[0]] None of
      Inl p \<Rightarrow> False
    | Inr fs' \<Rightarrow>
        Requests fs' = [\<lparr>ClientID = 1, File = Some 0, Timestamp = 1\<rparr>,
                        \<lparr>ClientID = 2, File = Some 0, Timestamp = 2\<rparr>] \<and>
        Acknowledged fs' = [False, True, False] \<and> Goroutines fs' = [])"
proof -
  obtain fs' where w: "WriteFile opened 2 (Some 0) ''B'' [[0]] None = Inr fs'"
    using sample_write_returns by blast
  from admission_protocol [of opened 2 "Some 0" "''B''" "[[0]]" None fs'] w
  have "Requests fs' = [\<lparr>ClientID = 1, File = Some 0, Timestamp = 1\<rparr>,
                        \<lparr>ClientID = 2, File = Some 0, Timestamp = 2\<rparr>] \<and>
        Acknowledged fs' = [False, True, False] \<and> Goroutines fs' = []"
    by (auto simp: opened_def Let_def run_goroutine_def SendRequest_def
        ReceiveAcknowledge_def println_def ack_scan_list_all)
  with w show ?thesis by simp
qed

subsection \<open>The registry\<close>

lemma map_Name_update:
  assumes "Name f = Name (st ! a)"
  shows "map Name (st[a := f]) = map Name st"
proof (cases "a < length st")
  case True
  with assms have "(map Name st)[a := Name f] = (map Name st)[a := map Name st ! a]"
    by simp
  then show ?thesis by (simp only: map_update list_update_id)
next
  case False
  then have "st[a := f] = st" by (simp add: list_update_beyond)
  then show ?thesis by simp
qed

lemma registry_okD:
  "registry_ok fs \<Longrightarrow> Files fs n = Some p \<Longrightarrow>
   \<exists>a<length (Store fs). p = Some a \<and> Name (Store fs ! a) = n"
  unfolding registry_ok_def by blast

lemma registry_ok_same:
  assumes "registry_ok fs" "Files fs' = Files fs" "map Name (Store fs') = map Name (Store fs)"
  shows "registry_ok fs'"
proof -
  have len: "length (Store fs') = length (Store fs)"
    using assms(3) by (rule map_eq_imp_length_eq)
  have nm: "Name (Store fs' ! a) = Name (Store fs ! a)" if "a < length (Store fs)" for a
    using assms(3) that len by (metis nth_map)
  show ?thesis
    using assms(1) by (simp add: registry_ok_def assms(2) len nm cong: conj_cong)
qed

lemma registry_ok_OpenFile:
  assumes "registry_ok fs" "OpenFile fs c n load = Inr (file, fs')"
  shows "registry_ok fs'"
proof (cases "Files fs n")
  case None
  show ?thesis
  proof (cases load)
    case (Inl err)
    with None assms(2) have "fs' = fs\<lparr>Stdout := Stdout fs @ [''Error opening file '' @ n @ '': '' @ err]\<rparr>"
      by (simp add: OpenFile_load_failure)
    then show ?thesis using assms(1) by (auto intro: registry_ok_same)
  next
    case (Inr content)
    with None assms(2) have fs': "Files fs' = (Files fs)(n \<mapsto> Some (length (Store fs)))"
      "Store fs' = Store fs @ [\<lparr>Name = n, IsOpen = True, Content = content\<rparr>]"
      by (auto simp: OpenFile_new)
    have old: "Name (Store fs ! a) \<noteq> n" if "a < length (Store fs)" for a
      using assms(1) None that by (auto simp: registry_ok_def)
    show ?thesis
      unfolding registry_ok_def
    proof (intro conjI allI impI)
      fix a assume "a < length (Store fs')"
      then show "Files fs' (Name (Store fs' ! a)) = Some (Some a)"
        using assms(1) old by (auto simp: fs' registry_ok_def nth_append less_Suc_eq)
    next
      fix m p assume "Files fs' m = Some p"
      then show "\<exists>a<length (Store fs'). p = Some a \<and> Name (Store fs' ! a) = m"
        using assms(1)
        by (fastforce simp: fs' registry_ok_def nth_append less_Suc_eq split: if_splits)
    qed
  qed
next
  case (Some p)
  with registry_okD [OF assms(1)] obtain a where a: "p = Some a" "a < length (Store fs)"
    by blast
  with Some assms(2) have "fs' = fs\<lparr>Store := (Store fs)[a := (Store fs ! a)\<lparr>IsOpen := True\<rparr>],
             Stdout := Stdout fs @ [''Client '' @ itoa c @ '' opened file '' @ n]\<rparr>"
    by (simp add: OpenFile_existing)
  then show ?thesis
    using assms(1) by (auto intro!: registry_ok_same [of fs] simp: map_Name_update)
qed

lemma registry_ok_exec:
  assumes "registry_ok fs" "exec c fs = Inr fs'"
  shows "registry_ok fs'"
proof (cases c)
  case (Open clientID n load)
  with assms show ?thesis
    by (auto split: sum.splits dest: registry_ok_OpenFile)
next
  case (Close fp)
  with assms show ?thesis
    by (auto elim!: CloseFile_Inr intro!: registry_ok_same [of fs]
        simp: map_Name_update)
next
  case (Read clientID fp sch)
  with assms show ?thesis
    by (auto elim!: ReadFile_Inr intro!: registry_ok_same [of fs])
next
  case (Write clientID fp content sch save)
  with assms show ?thesis
    by (auto elim!: WriteFile_Inr intro!: registry_ok_same [of fs]
        simp: map_Name_update)
next
  case (Notify k)
  with assms show ?thesis
    by (auto dest!: run_goroutine_core simp: same_core_def intro!: registry_ok_same [of fs])
qed

lemma exec_Files:
  assumes "exec c fs = Inr fs'" "Files fs n = Some p"
  shows "Files fs' n = Some p"
proof (cases c)
  case (Open clientID m load)
  with assms show ?thesis
    by (auto simp: OpenFile_def println_def Let_def split: sum.splits option.splits)
next
  case (Close fp)
  with assms show ?thesis
    by (auto elim!: CloseFile_Inr)
next
  case (Read clientID fp sch)
  with assms show ?thesis
    by (auto elim!: ReadFile_Inr)
next
  case (Write clientID fp content sch save)
  with assms show ?thesis
    by (auto elim!: WriteFile_Inr)
next
  case (Notify k)
  with assms show ?thesis
    by (auto dest!: run_goroutine_core simp: same_core_def)
qed

lemma run_registry:
  assumes "run cs fs = Inr fs'" "registry_ok fs"
  shows "registry_ok fs' \<and>
         (\<forall>n p. Files fs n = Some p \<longrightarrow> Files fs' n = Some p) \<and>
         (\<forall>a<length (Store fs). a < length (Store fs') \<and>
              Name (Store fs' ! a) = Name (Store fs ! a))"
  using assms
proof (induction cs arbitrary: fs)
  case Nil
  then show ?case by simp
next
  case (Cons c cs)
  from Cons.prems(1) obtain fs1 where e: "exec c fs = Inr fs1" and r: "run cs fs1 = Inr fs'"
    by (auto split: sum.splits)
  have ok1: "registry_ok fs1"
    using Cons.prems(2) e by (rule registry_ok_exec)
  note ih = Cons.IH [OF r ok1]
  show ?case
  proof (intro conjI allI impI)
    show "registry_ok fs'" using ih by simp
  next
    fix n p assume "Files fs n = Some p"
    with e have "Files fs1 n = Some p" by (rule exec_Files)
    with ih show "Files fs' n = Some p" by simp
  next
    fix a assume a: "a < length (Store fs)"
    from exec_Store [OF e a] have "a < length (Store fs1)"
      "Name (Store fs1 ! a) = Name (Store fs ! a)" by simp_all
    with ih show "a < length (Store fs')" "Name (Store fs' ! a) = Name (Store fs ! a)"
      by simp_all
  qed
qed

lemma registry_ok_distinct:
  assumes "registry_ok fs"
  shows "distinct (map Name (Store fs))"
proof -
  have "a = b" if "a < length (Store fs)" "b < length (Store fs)"
    "Name (Store fs ! a) = Name (Store fs ! b)" for a b
  proof -
    from assms that(1) have "Files fs (Name (Store fs ! a)) = Some (Some a)"
      by (simp add: registry_ok_def)
    moreover from assms that(2) have "Files fs (Name (Store fs ! b)) = Some (Some b)"
      by (simp add: registry_ok_def)
    ultimately show ?thesis using that(3) by (metis option.inject)
  qed
  then have "\<forall>a<length (map Name (Store fs)). \<forall>b<length (map Name (Store fs)).
      a \<noteq> b \<longrightarrow> map Name (Store fs) ! a \<noteq> map Name (Store fs) ! b"
    by auto
  then show ?thesis
    by (simp only: distinct_conv_nth)
qed

lemma registry_ok_three_clients: "registry_ok three_clients"
  by (simp add: registry_ok_def three_clients_def)

lemma sample_run_registry:
  "\<exists>fs'. run sample_calls three_clients = Inr fs' \<and> Files fs' ''file1.txt'' = Some (Some 0)"
  by (simp add: sample_calls_def three_clients_def OpenFile_def WriteFile_def ReadFile_def
      CloseFile_def run_goroutine_def SendRequest_def ReceiveAcknowledge_def println_def
      LogRequest_def AddDeferredOperation_def deref_def ack_scan_list_all Let_def)

text \<open>
  Claim C8. In every state a run reaches from a well-formed registry (the empty one that
  \<open>main\<close> builds, for one), no two \<open>File\<close> objects have the same name; no call removes or
  replaces a registry entry, and no \<open>File\<close> object is removed or renamed. \<open>OpenFile\<close> on a
  name without a handle inserts a new handle when the load succeeds and changes nothing but
  the printed lines when it fails; on a name with a handle it returns that handle and only
  sets its open flag.
\<close>

theorem one_handle_per_name:
  assumes "registry_ok fs" "run cs fs = Inr fs'"
  shows "distinct (map Name (Store fs')) \<and>
         (\<forall>n p. Files fs n = Some p \<longrightarrow> Files fs' n = Some p) \<and>
         (\<forall>a<length (Store fs). a < length (Store fs') \<and>
              Name (Store fs' ! a) = Name (Store fs ! a)) \<and>
         (Files fs' n = None \<longrightarrow>
            OpenFile fs' c n (Inl err) =
              Inr (None, fs'\<lparr>Stdout := Stdout fs' @
                     [''Error opening file '' @ n @ '': '' @ err]\<rparr>) \<and>
            OpenFile fs' c n (Inr content) =
              Inr (Some (length (Store fs')),
                   fs'\<lparr>Store := Store fs' @ [\<lparr>Name = n, IsOpen = True, Content = content\<rparr>],
                       Files := (Files fs')(n \<mapsto> Some (length (Store fs'))),
                       Stdout := Stdout fs' @ [''Client '' @ itoa c @ '' opened file '' @ n]\<rparr>)) \<and>
         (\<forall>p. Files fs' n = Some p \<longrightarrow>
            (\<exists>a<length (Store fs'). p = Some a \<and> Name (Store fs' ! a) = n \<and>
               OpenFile fs' c n load =
                 Inr (p, fs'\<lparr>Store := (Store fs')[a := (Store fs' ! a)\<lparr>IsOpen := True\<rparr>],
                       Stdout := Stdout fs' @ [''Client '' @ itoa c @ '' opened file '' @ n]\<rparr>)))"
proof -
  from run_registry [OF assms(2,1)] have ok: "registry_ok fs'"
    and keep: "\<forall>n p. Files fs n = Some p \<longrightarrow> Files fs' n = Some p"
    and st: "\<forall>a<length (Store fs). a < length (Store fs') \<and>
              Name (Store fs' ! a) = Name (Store fs ! a)"
    by blast+
  have ex: "\<exists>a<length (Store fs'). p = Some a \<and> Name (Store fs' ! a) = n \<and>
               OpenFile fs' c n load =
                 Inr (p, fs'\<lparr>Store := (Store fs')[a := (Store fs' ! a)\<lparr>IsOpen := True\<rparr>],
                       Stdout := Stdout fs' @ [''Client '' @ itoa c @ '' opened file '' @ n]\<rparr>)"
    if "Files fs' n = Some p" for p
  proof -
    from registry_okD [OF ok that] obtain a where
      a: "a < length (Store fs')" "p = Some a" "Name (Store fs' ! a) = n"
      by blast
    with that OpenFile_existing [of fs' n a c load] show ?thesis by auto
  qed
  from registry_ok_distinct [OF ok] keep st ex show ?thesis
    by (simp add: OpenFile_load_failure OpenFile_new)
qed

theorem one_handle_per_name_witness:
  "registry_ok three_clients \<and>
   (case run sample_calls three_clients of
      Inl p \<Rightarrow> False
    | Inr fs' \<Rightarrow>
        distinct (map Name (Store fs')) \<and>
        (case OpenFile fs' 3 ''file1.txt'' (Inl ''no such file'') of
           Inl p \<Rightarrow> False
         | Inr (file, fs'') \<Rightarrow> file = Some 0 \<and> Files fs'' = Files fs'))"
proof -
  obtain fs' where r: "run sample_calls three_clients = Inr fs'"
    and f: "Files fs' ''file1.txt'' = Some (Some 0)"
    using sample_run_registry by blast
  from one_handle_per_name [OF registry_ok_three_clients r,
      of "''file1.txt''" 3 "''no such file''" "''old''" "Inl ''no such file''"] f
  have "distinct (map Name (Store fs'))"
    "\<exists>a<length (Store fs'). OpenFile fs' 3 ''file1.txt'' (Inl ''no such file'') =
       Inr (Some 0, fs'\<lparr>Store := (Store fs')[a := (Store fs' ! a)\<lparr>IsOpen := True\<rparr>],
               Stdout := Stdout fs' @ [''Client '' @ itoa 3 @ '' opened file '' @ ''file1.txt'']\<rparr>)"
    by auto
  with r registry_ok_three_clients show ?thesis
    by auto
qed

subsection \<open>A client whose open fails\<close>

lemma client_step_clients:
  assumes "client_step j load sch save P = Inr P'" "i \<noteq> j"
  shows "length (clients P') = length (clients P) \<and> clients P' ! i = clients P ! i"
  using assms
  by (auto simp: client_step_def Let_def split: if_splits client_pc.splits sum.splits)

lemma client_step_Finished:
  "clients P ! i = Finished \<Longrightarrow> client_step i load sch save P = Inr P"
  by (simp add: client_step_def)

lemma main_step_other:
  assumes "main_step e P = Inr P'" "\<not> by_client i e"
  shows "length (clients P') = length (clients P) \<and> clients P' ! i = clients P ! i"
proof (cases e)
  case (Advance j load sch save)
  with assms show ?thesis by (auto dest: client_step_clients)
next
  case (Deliver k)
  with assms show ?thesis by (auto split: sum.splits)
qed

lemma inert_client:
  assumes "main_run evs P = Inr Q" "clients P ! i = Finished"
  shows "clients Q ! i = Finished \<and> main_run (filter (\<lambda>e. \<not> by_client i e) evs) P = Inr Q"
  using assms
proof (induction evs arbitrary: P)
  case Nil
  then show ?case by simp
next
  case (Cons e evs)
  from Cons.prems(1) obtain P1 where s: "main_step e P = Inr P1" and r: "main_run evs P1 = Inr Q"
    by (auto split: sum.splits)
  show ?case
  proof (cases "by_client i e")
    case True
    then obtain load sch save where e: "e = Advance i load sch save"
      by (cases e) auto
    with s Cons.prems(2) have "P1 = P" by (simp add: client_step_Finished)
    with Cons.IH [OF r] Cons.prems(2) True show ?thesis by simp
  next
    case False
    from main_step_other [OF s False] Cons.prems(2) have "clients P1 ! i = Finished" by simp
    from Cons.IH [OF r this] s False show ?thesis by simp
  qed
qed

text \<open>
  Claim C6. When the load of the first \<open>OpenFile\<close> on the name fails, \<open>OpenFile\<close> returns
  \<open>nil\<close> and changes nothing but the printed lines: the registry, the store, the audit log
  and the deferred-operation list are as before. The client task is finished by that step:
  each later step of it changes nothing, and a run yields the same state with its events
  removed, so no audit line and no deferred-operation label is its own.
\<close>

theorem failed_open_leaves_client_inert:
  assumes "i < length (clients P)" "clients P ! i = AtOpen"
    "Files (fileSystem P) ''file1.txt'' = None"
  shows "OpenFile (fileSystem P) (int i + 1) ''file1.txt'' (Inl err) =
           Inr (None, (fileSystem P)\<lparr>Stdout := Stdout (fileSystem P) @
                  [''Error opening file file1.txt: '' @ err]\<rparr>) \<and>
         (\<exists>P'. main_step (Advance i (Inl err) sch save) P = Inr P' \<and>
            fileSystem P' = (fileSystem P)\<lparr>Stdout := Stdout (fileSystem P) @
                  [''Error opening file file1.txt: '' @ err]\<rparr> \<and>
            clients P' = (clients P)[i := Finished] \<and>
            (\<forall>load' sch' save'. main_step (Advance i load' sch' save') P' = Inr P') \<and>
            (\<forall>evs Q. main_run evs P' = Inr Q \<longrightarrow>
               clients Q ! i = Finished \<and>
               main_run (filter (\<lambda>e. \<not> by_client i e) evs) P' = Inr Q))"
proof -
  let ?fs' = "(fileSystem P)\<lparr>Stdout := Stdout (fileSystem P) @
                  [''Error opening file file1.txt: '' @ err]\<rparr>"
  let ?P' = "\<lparr>fileSystem = ?fs', clients = (clients P)[i := Finished]\<rparr>"
  have o: "OpenFile (fileSystem P) (int i + 1) ''file1.txt'' (Inl err) = Inr (None, ?fs')"
    using assms(3) by (simp add: OpenFile_load_failure)
  have s: "main_step (Advance i (Inl err) sch save) P = Inr ?P'"
    using assms(1,2) o by (simp add: client_step_def)
  have f: "clients ?P' ! i = Finished"
    using assms(1) by simp
  have "\<forall>load' sch' save'. main_step (Advance i load' sch' save') ?P' = Inr ?P'"
    using f by (simp add: client_step_Finished)
  moreover have "\<forall>evs Q. main_run evs ?P' = Inr Q \<longrightarrow>
               clients Q ! i = Finished \<and>
               main_run (filter (\<lambda>e. \<not> by_client i e) evs) ?P' = Inr Q"
    using inert_client [OF _ f] by blast
  ultimately show ?thesis using o s by simp
qed

theorem failed_open_witness:
  "(case main_step (Advance 0 (Inl ''no such file'') [] None) two_clients of
      Inl p \<Rightarrow> False
    | Inr P' \<Rightarrow>
        clients P' = [Finished, AtOpen] \<and>
        Files (fileSystem P') = Map.empty \<and> Store (fileSystem P') = [] \<and>
        LogFile (fileSystem P') = [] \<and> DeferredArray (fileSystem P') = [] \<and>
        main_step (Advance 0 (Inr ''old'') [] None) P' = Inr P')"
proof -
  have "0 < length (clients two_clients)" "clients two_clients ! 0 = AtOpen"
    "Files (fileSystem two_clients) ''file1.txt'' = None"
    by (simp_all add: two_clients_def)
  from failed_open_leaves_client_inert [OF this, of "''no such file''" "[]" None]
  obtain P' where "main_step (Advance 0 (Inl ''no such file'') [] None) two_clients = Inr P'"
    "fileSystem P' = (fileSystem two_clients)\<lparr>Stdout := Stdout (fileSystem two_clients) @
                  [''Error opening file file1.txt: '' @ ''no such file'']\<rparr>"
    "clients P' = (clients two_clients)[0 := Finished]"
    "\<forall>load' sch' save'. main_step (Advance 0 load' sch' save') P' = Inr P'"
    by blast
  then show ?thesis
    by (simp add: two_clients_def)
qed

subsection \<open>Slot 0 of the gate\<close>

lemma gate_inv_ReceiveAcknowledge:
  assumes "gate_inv n fs"
  shows "ReceiveAcknowledge fs = fs"
proof -
  from assms have "0 < length (Acknowledged fs)" "\<not> Acknowledged fs ! 0"
    by (simp_all add: gate_inv_def)
  then have "\<not> ack_scan (Acknowledged fs) 0"
    by (auto simp: ack_scan_iff)
  then show ?thesis by (simp add: ReceiveAcknowledge_def)
qed

lemma gate_inv_SendRequest:
  assumes "gate_inv n fs" "1 \<le> ClientID r"
  shows "\<exists>fs'. SendRequest fs c r = Inr fs' \<and> gate_inv n fs' \<and>
           Requests fs' = Requests fs \<and> Goroutines fs' = Goroutines fs"
proof (cases "ClientID r < int (length (Acknowledged fs))")
  case True
  from assms(2) have "nat (ClientID r) \<noteq> 0" by simp
  with True assms show ?thesis
    by (simp add: SendRequest_def println_def gate_inv_def)
next
  case False
  with assms show ?thesis
    by (simp add: SendRequest_def println_def gate_inv_def)
qed

lemma gate_inv_run_goroutine:
  assumes "gate_inv n fs"
  shows "\<exists>fs'. run_goroutine k fs = Inr fs' \<and> gate_inv n fs' \<and> Requests fs' = Requests fs"
proof (cases "k < length (Goroutines fs)")
  case False
  with assms show ?thesis by (simp add: run_goroutine_def)
next
  case True
  obtain c r where g: "Goroutines fs ! k = (c, r)" by (cases "Goroutines fs ! k")
  let ?fs1 = "fs\<lparr>Goroutines := take k (Goroutines fs) @ drop (Suc k) (Goroutines fs)\<rparr>"
  from True g have "(c, r) \<in> set (Goroutines fs)" by (metis nth_mem)
  with assms have id: "1 \<le> ClientID r" by (auto simp: gate_inv_def)
  have "set (take k (Goroutines fs) @ drop (Suc k) (Goroutines fs)) \<subseteq> set (Goroutines fs)"
    using set_take_subset set_drop_subset by fastforce
  with assms have "gate_inv n ?fs1" by (auto simp: gate_inv_def)
  from gate_inv_SendRequest [OF this id, of c] True g show ?thesis
    by (auto simp: run_goroutine_def)
qed

lemma gate_inv_run_goroutines:
  assumes "gate_inv n fs"
  shows "\<exists>fs'. run_goroutines ks fs = Inr fs' \<and> gate_inv n fs' \<and> Requests fs' = Requests fs"
  using assms
proof (induction ks arbitrary: fs)
  case Nil
  then show ?case by simp
next
  case (Cons k ks)
  from gate_inv_run_goroutine [OF Cons.prems, of k] obtain fs1 where
    "run_goroutine k fs = Inr fs1" "gate_inv n fs1" "Requests fs1 = Requests fs" by blast
  with Cons.IH [of fs1] show ?case by auto
qed

lemma gate_inv_polls:
  assumes "gate_inv n fs"
  shows "\<exists>fs'. polls m sch fs = Inr fs' \<and> gate_inv n fs' \<and> Requests fs' = Requests fs"
  using assms
proof (induction m arbitrary: sch fs)
  case 0
  then show ?case by simp
next
  case (Suc m)
  from gate_inv_run_goroutines [OF Suc.prems, of "case sch of [] \<Rightarrow> [] | ks # _ \<Rightarrow> ks"]
  obtain fs1 where g: "run_goroutines (case sch of [] \<Rightarrow> [] | ks # _ \<Rightarrow> ks) fs = Inr fs1"
    "gate_inv n fs1" "Requests fs1 = Requests fs" by blast
  from gate_inv_ReceiveAcknowledge [OF g(2)] have "ReceiveAcknowledge fs1 = fs1" .
  with Suc.IH [OF g(2), of "tl sch"] g show ?case by auto
qed

text \<open>
The admission part of Read and Write keeps the invariant when the caller's id is positive.
\<close>

lemma gate_inv_admission:
  assumes "gate_inv n fs" "1 \<le> c"
  shows "\<exists>fs4. poll_loop (Requests fs @ [\<lparr>ClientID = c, File = file,
                   Timestamp = int (length (Timestamps fs)) + 1\<rparr>]) c sch
           (spawn_loop (Requests fs @ [\<lparr>ClientID = c, File = file,
                   Timestamp = int (length (Timestamps fs)) + 1\<rparr>]) c
              (fs\<lparr>Timestamps := Timestamps fs @ [int (length (Timestamps fs)) + 1],
                  Requests := Requests fs @ [\<lparr>ClientID = c, File = file,
                   Timestamp = int (length (Timestamps fs)) + 1\<rparr>]\<rparr>)) = Inr fs4 \<and>
         gate_inv n fs4"
proof -
  let ?r = "\<lparr>ClientID = c, File = file, Timestamp = int (length (Timestamps fs)) + 1\<rparr>"
  let ?fs3 = "spawn_loop (Requests fs @ [?r]) c
              (fs\<lparr>Timestamps := Timestamps fs @ [int (length (Timestamps fs)) + 1],
                  Requests := Requests fs @ [?r]\<rparr>)"
  have "gate_inv n ?fs3"
    using assms by (auto simp: gate_inv_def spawn_loop_eq)
  from gate_inv_polls [OF this] show ?thesis
    by (simp only: poll_loop_polls) blast
qed

lemma gate_inv_WriteFile:
  assumes "gate_inv n fs" "1 \<le> c" "WriteFile fs c file content sch save = Inr fs'"
  shows "gate_inv n fs'"
proof -
  from gate_inv_admission [OF assms(1,2), of "file" sch] obtain fs4 where
    "poll_loop (Requests fs @ [\<lparr>ClientID = c, File = file,
                   Timestamp = int (length (Timestamps fs)) + 1\<rparr>]) c sch
           (spawn_loop (Requests fs @ [\<lparr>ClientID = c, File = file,
                   Timestamp = int (length (Timestamps fs)) + 1\<rparr>]) c
              (fs\<lparr>Timestamps := Timestamps fs @ [int (length (Timestamps fs)) + 1],
                  Requests := Requests fs @ [\<lparr>ClientID = c, File = file,
                   Timestamp = int (length (Timestamps fs)) + 1\<rparr>]\<rparr>)) = Inr fs4"
    "gate_inv n fs4" by blast
  with assms(3) show ?thesis
    by (auto simp: WriteFile_def Let_def gate_inv_def println_def LogRequest_def
        AddDeferredOperation_def spawn_loop_eq split: option.splits)
qed

lemma gate_inv_ReadFile:
  assumes "gate_inv n fs" "1 \<le> c" "ReadFile fs c file sch = Inr fs'"
  shows "gate_inv n fs'"
proof -
  from gate_inv_admission [OF assms(1,2), of "file" sch] obtain fs4 where
    "poll_loop (Requests fs @ [\<lparr>ClientID = c, File = file,
                   Timestamp = int (length (Timestamps fs)) + 1\<rparr>]) c sch
           (spawn_loop (Requests fs @ [\<lparr>ClientID = c, File = file,
                   Timestamp = int (length (Timestamps fs)) + 1\<rparr>]) c
              (fs\<lparr>Timestamps := Timestamps fs @ [int (length (Timestamps fs)) + 1],
                  Requests := Requests fs @ [\<lparr>ClientID = c, File = file,
                   Timestamp = int (length (Timestamps fs)) + 1\<rparr>]\<rparr>)) = Inr fs4"
    "gate_inv n fs4" by blast
  with assms(3) show ?thesis
    by (auto simp: ReadFile_def Let_def gate_inv_def println_def LogRequest_def
        AddDeferredOperation_def spawn_loop_eq split: option.splits)
qed

lemma gate_inv_OpenFile:
  assumes "gate_inv n fs" "OpenFile fs c name load = Inr (file, fs')"
  shows "gate_inv n fs'"
  using assms
  by (auto simp: OpenFile_def Let_def gate_inv_def println_def split: option.splits sum.splits)

lemma gate_inv_CloseFile:
  assumes "gate_inv n fs" "CloseFile fs file = Inr fs'"
  shows "gate_inv n fs'"
  using assms
  by (auto simp: CloseFile_def Let_def gate_inv_def println_def split: option.splits)

lemma gate_inv_main_step:
  assumes "gate_inv n (fileSystem P)" "main_step e P = Inr P'"
  shows "gate_inv n (fileSystem P')"
proof (cases e)
  case (Advance i load sch save)
  have pos: "1 \<le> int i + 1" by simp
  from assms Advance show ?thesis
    by (auto simp: client_step_def Let_def split: if_splits client_pc.splits sum.splits
        dest: gate_inv_OpenFile gate_inv_CloseFile
          gate_inv_WriteFile [OF _ pos] gate_inv_ReadFile [OF _ pos])
next
  case (Deliver k)
  from gate_inv_run_goroutine [OF assms(1), of k] assms(2) Deliver show ?thesis
    by auto
qed

lemma gate_inv_main_run:
  assumes "gate_inv n (fileSystem P)" "main_run evs P = Inr Q"
  shows "gate_inv n (fileSystem Q)"
  using assms
proof (induction evs arbitrary: P)
  case Nil
  then show ?case by simp
next
  case (Cons e evs)
  from Cons.prems(2) obtain P1 where s: "main_step e P = Inr P1" and r: "main_run evs P1 = Inr Q"
    by (auto split: sum.splits)
  from gate_inv_main_step [OF Cons.prems(1) s] have "gate_inv n (fileSystem P1)" .
  from Cons.IH [OF this r] show ?case .
qed

lemma main_start_two: "main_start 2 = Inr two_clients"
  by (simp add: main_start_def two_clients_def numeral_2_eq_2)

lemma sample_events_return: "\<exists>P. main_run sample_events two_clients = Inr P"
  by (simp add: sample_events_def two_clients_def client_step_def OpenFile_def WriteFile_def
      ReadFile_def CloseFile_def run_goroutine_def SendRequest_def ReceiveAcknowledge_def
      println_def LogRequest_def AddDeferredOperation_def deref_def ack_scan_list_all Let_def)

text \<open>
  Claim C10. In every state \<open>main\<close> reaches with at least one client, whatever the
  interleaving, the acknowledgment array keeps its length, slot 0 is false, every id in the
  ledger and in the pending notify tasks is at least 1, \<open>ReceiveAcknowledge\<close> changes
  nothing and its reset has never been reported.
\<close>

theorem slot_zero_never_set:
  assumes "0 < numClients" "main_start numClients = Inr P0" "main_run evs P0 = Inr P"
  shows "length (Acknowledged (fileSystem P)) = nat numClients \<and>
         \<not> Acknowledged (fileSystem P) ! 0 \<and>
         (\<forall>r\<in>set (Requests (fileSystem P)). 1 \<le> ClientID r) \<and>
         (\<forall>g\<in>set (Goroutines (fileSystem P)). 1 \<le> ClientID (snd g)) \<and>
         ReceiveAcknowledge (fileSystem P) = fileSystem P \<and>
         ''All acknowledgments received'' \<notin> set (Stdout (fileSystem P))"
proof -
  from assms(1,2) have "gate_inv (nat numClients) (fileSystem P0)"
    by (auto simp: main_start_def gate_inv_def)
  from gate_inv_main_run [OF this assms(3)] have inv: "gate_inv (nat numClients) (fileSystem P)" .
  from gate_inv_ReceiveAcknowledge [OF inv] inv show ?thesis
    by (simp add: gate_inv_def)
qed

theorem slot_zero_never_set_witness:
  "(case main_start 2 of
      Inl p \<Rightarrow> False
    | Inr P0 \<Rightarrow>
        (case main_run sample_events P0 of
           Inl p \<Rightarrow> False
         | Inr P \<Rightarrow>
             length (Acknowledged (fileSystem P)) = 2 \<and>
             Acknowledged (fileSystem P) ! 0 = False \<and>
             ReceiveAcknowledge (fileSystem P) = fileSystem P))"
proof -
  obtain P where r: "main_run sample_events two_clients = Inr P"
    using sample_events_return by blast
  from slot_zero_never_set [OF _ main_start_two r] r show ?thesis
    by (simp add: main_start_two)
qed

end
